theory Spec2Isabelle
  imports Main "HOL-Library.Word"
begin

section \<open>The MAF reader and writer of sharedMaf.c\<close>

text \<open>
  A shallow embedding of \<^verbatim>\<open>src/include/sharedMaf.c\<close>. C strings are \<open>string\<close>s
  without their terminating NUL (so \<open>strlen\<close> is \<open>length\<close> and \<open>s[0]\<close> of the empty string is
  NUL); a \<open>char *\<close> that may be \<open>NULL\<close> is a \<open>string option\<close>; \<open>uint32_t\<close> and
  \<open>unsigned\<close> are \<open>32 word\<close>. The \<open>next\<close> pointers of lines and blocks are the
  tails of HOL lists. \<open>exit(EXIT_FAILURE)\<close> and a dereferenced \<open>NULL\<close> are \<open>Inl\<close> values
  of the type \<open>error\<close>.
\<close>

subsection \<open>Data\<close>

type_synonym u32 = "32 word"

record mafLine =
  ml_line :: string
  ml_lineNumber :: u32
  ml_type :: char
  ml_species :: "string option"
  ml_start :: u32
  ml_length :: u32
  ml_strand :: char
  ml_sourceLength :: u32
  ml_sequence :: "string option"

text \<open>
  \<open>headLine\<close>, \<open>tailLine\<close> and the lines' \<open>next\<close> pointers are the list \<open>mb_lines\<close>:
  \<open>headLine = NULL\<close> is \<open>mb_lines = []\<close>.
\<close>

record mafBlock =
  mb_lines :: "mafLine list"
  mb_lineNumber :: u32
  mb_numberOfLines :: u32
  mb_numberOfSequences :: u32

text \<open>
  The stream \<open>mfp\<close> is the list of the lines not yet read (what \<open>de_getline\<close> of common.c
  hands out one at a time, without the line terminator) together with the text written to it
  so far; \<open>mfa_open\<close> is \<open>mfp \<noteq> NULL\<close>.
\<close>

record mafFileApi =
  mfa_lineNumber :: u32
  mfa_mfp :: "string list"
  mfa_out :: string
  mfa_open :: bool
  mfa_filename :: string
  mfa_lastLine :: "string option"

datatype error =
    PrematureEnd
  | BadFormat u32 string
  | NoValidHeader string
  | NullDereference
  | OutOfBounds

subsection \<open>C library: isspace, strtok, strtoul, strncmp, strncpy\<close>

definition NUL :: char where
  "NUL = CHR 0x00"

definition isspace :: "char \<Rightarrow> bool" where
  "isspace c = (c = CHR '' '' \<or> c = CHR 0x09 \<or> c = CHR 0x0A \<or> c = CHR 0x0B
     \<or> c = CHR 0x0C \<or> c = CHR 0x0D)"

definition isdigit :: "char \<Rightarrow> bool" where
  "isdigit c = (48 \<le> (of_char c :: nat) \<and> (of_char c :: nat) \<le> 57)"

text \<open>\<open>s[0]\<close> of a C string.\<close>

definition char0 :: "string \<Rightarrow> char" where
  "char0 s = (case s of [] \<Rightarrow> NUL | c # _ \<Rightarrow> c)"

text \<open>The delimiters of every \<open>strtok\<close> call of the file: \<^verbatim>\<open>" \t"\<close>.\<close>

definition is_delim :: "char \<Rightarrow> bool" where
  "is_delim c = (c = CHR '' '' \<or> c = CHR 0x09)"

text \<open>
  One call of \<open>strtok\<close> on what is left of the string: the next token and the rest after the
  delimiter that ended it, or \<open>None\<close> for \<open>NULL\<close>.
\<close>

definition strtok :: "string \<Rightarrow> (string \<times> string) option" where
  "strtok s =
     (let s' = dropWhile is_delim s in
      if s' = [] then None
      else Some (takeWhile (\<lambda>c. \<not> is_delim c) s',
                 drop 1 (dropWhile (\<lambda>c. \<not> is_delim c) s')))"

fun strtoul_digits :: "nat \<Rightarrow> string \<Rightarrow> nat" where
  "strtoul_digits acc [] = acc"
| "strtoul_digits acc (c # cs) =
     (if isdigit c then strtoul_digits (10 * acc + ((of_char c :: nat) - 48)) cs else acc)"

text \<open>
  \<open>strtoul(s, NULL, 10)\<close> with a 64-bit \<open>unsigned long\<close>: leading white space, an optional
  sign, the decimal digits; \<open>ULONG_MAX\<close> on overflow, the negated value after a minus sign.
\<close>

definition strtoul :: "string \<Rightarrow> 64 word" where
  "strtoul s =
     (let s1 = dropWhile isspace s;
          neg = (char0 s1 = CHR ''-'');
          s2 = (if char0 s1 = CHR ''-'' \<or> char0 s1 = CHR ''+'' then drop 1 s1 else s1);
          v = strtoul_digits 0 s2
      in if v > 2 ^ 64 - 1 then - 1
         else if neg then - (word_of_nat v) else word_of_nat v)"

text \<open>\<open>strncmp(line, p, length p) == 0\<close> for a literal \<open>p\<close> without NUL.\<close>

definition strncmp_eq :: "string \<Rightarrow> string \<Rightarrow> bool" where
  "strncmp_eq s p = (take (length p) s = p)"

text \<open>The \<open>m\<close> bytes \<open>strncpy(dst, src, m)\<close> writes: \<open>src\<close> cut at \<open>m\<close>, padded with NUL.\<close>

definition strncpy :: "string \<Rightarrow> nat \<Rightarrow> string" where
  "strncpy src m = take m src @ replicate (m - length src) NUL"

subsection \<open>Lines\<close>

fun maf_isBlankLine :: "string \<Rightarrow> bool" where
  "maf_isBlankLine [] = True"
| "maf_isBlankLine (c # cs) = (if \<not> isspace c then False else maf_isBlankLine cs)"

definition maf_checkForPrematureMafEnd :: "'a option \<Rightarrow> error + 'a" where
  "maf_checkForPrematureMafEnd status =
     (case status of None \<Rightarrow> Inl PrematureEnd | Some r \<Rightarrow> Inr r)"

definition maf_failBadFormat :: "u32 \<Rightarrow> string \<Rightarrow> error + 'a" where
  "maf_failBadFormat lineNumber errorMessage = Inl (BadFormat lineNumber errorMessage)"

definition maf_newMafLine :: mafLine where
  "maf_newMafLine =
     \<lparr>ml_line = [], ml_lineNumber = 0, ml_type = NUL, ml_species = None, ml_start = 0,
      ml_length = 0, ml_strand = NUL, ml_sourceLength = 0, ml_sequence = None\<rparr>"

definition strand_error :: "char \<Rightarrow> string" where
  "strand_error c = ''Strand must be either + or -, not '' @ [c] @ ''.''"

definition maf_newMafLineFromString :: "string \<Rightarrow> u32 \<Rightarrow> error + mafLine" where
  "maf_newMafLineFromString s lineNumber =
     (let ml = \<lparr>ml_line = s, ml_lineNumber = lineNumber, ml_type = char0 s, ml_species = None,
                ml_start = 0, ml_length = 0, ml_strand = NUL, ml_sourceLength = 0,
                ml_sequence = None\<rparr>
      in if ml_type ml \<noteq> CHR ''s'' then Inr ml
      else case strtok s of
        None \<Rightarrow> maf_failBadFormat lineNumber
          ''Unable to separate line on tabs and spaces at line definition field.''
      | Some (t0, r0) \<Rightarrow>
      (case strtok r0 of
        None \<Rightarrow> maf_failBadFormat lineNumber
          ''Unable to separate line on tabs and spaces at name field.''
      | Some (t1, r1) \<Rightarrow>
      (case strtok r1 of
        None \<Rightarrow> maf_failBadFormat lineNumber
          ''Unable to separate line on tabs and spaces at start position field.''
      | Some (t2, r2) \<Rightarrow>
      (case strtok r2 of
        None \<Rightarrow> maf_failBadFormat lineNumber
          ''Unable to separate line on tabs and spaces at length position field.''
      | Some (t3, r3) \<Rightarrow>
      (case strtok r3 of
        None \<Rightarrow> maf_failBadFormat lineNumber
          ''Unable to separate line on tabs and spaces at strand field.''
      | Some (t4, r4) \<Rightarrow>
      if char0 t4 \<noteq> CHR ''-'' \<and> char0 t4 \<noteq> CHR ''+''
      then maf_failBadFormat lineNumber (strand_error (char0 t4))
      else
      (case strtok r4 of
        None \<Rightarrow> maf_failBadFormat lineNumber
          ''Unable to separate line on tabs and spaces at source length field.''
      | Some (t5, r5) \<Rightarrow>
      (case strtok r5 of
        None \<Rightarrow> maf_failBadFormat lineNumber
          ''Unable to separate line on tabs and spaces at sequence field.''
      | Some (t6, r6) \<Rightarrow>
          Inr (ml\<lparr>ml_species := Some t1, ml_start := ucast (strtoul t2),
                  ml_length := ucast (strtoul t3), ml_strand := char0 t4,
                  ml_sourceLength := ucast (strtoul t5), ml_sequence := Some t6\<rparr>))))))))"

definition maf_mafLine_getPositiveCoord :: "mafLine \<Rightarrow> u32" where
  "maf_mafLine_getPositiveCoord ml =
     (if ml_strand ml = CHR ''+'' then ml_start ml
      else ml_sourceLength ml - (ml_start ml + 1))"

definition maf_mafLine_getPositiveLeftCoord :: "mafLine \<Rightarrow> u32" where
  "maf_mafLine_getPositiveLeftCoord ml =
     (if ml_strand ml = CHR ''+'' then ml_start ml
      else ml_sourceLength ml - (ml_start ml + ml_length ml))"

subsection \<open>Blocks and the file session\<close>

definition maf_newMafBlock :: mafBlock where
  "maf_newMafBlock =
     \<lparr>mb_lines = [], mb_lineNumber = 0, mb_numberOfLines = 0, mb_numberOfSequences = 0\<rparr>"

text \<open>
  Modelled from the spec: \<open>de_getline\<close> is defined in common.c, which is not among the
  sources. The File Session's line-oriented handle hands out the next line of the stream, and
  signals the end of the stream (status \<open>-1\<close>, here \<open>None\<close>) when no line is left.
\<close>

definition de_getline :: "string list \<Rightarrow> (string \<times> string list) option" where
  "de_getline f = (case f of [] \<Rightarrow> None | l # f' \<Rightarrow> Some (l, f'))"

text \<open>
  \<open>maf_newMfa\<close>: the session \<open>de_fopen\<close> opens on a file; \<open>contents\<close> are the lines of the
  file when it is opened for reading.
\<close>

definition maf_newMfa :: "string \<Rightarrow> string list \<Rightarrow> mafFileApi" where
  "maf_newMfa filename contents =
     \<lparr>mfa_lineNumber = 0, mfa_mfp = contents, mfa_out = [], mfa_open = True,
      mfa_filename = filename, mfa_lastLine = None\<rparr>"

subsection \<open>Reading the header\<close>

text \<open>The line record each of the three header branches builds from the current line.\<close>

definition header_line :: "string \<Rightarrow> u32 \<Rightarrow> mafLine" where
  "header_line line n = maf_newMafLine\<lparr>ml_line := line, ml_type := CHR ''h'', ml_lineNumber := n\<rparr>"

text \<open>
  The common tail of the three branches: read the next line, count it, set the header's
  \<open>lineNumber\<close> and \<open>numberOfLines\<close>, and stop at a premature end of the file.
\<close>

definition header_advance ::
  "mafBlock \<Rightarrow> mafFileApi \<Rightarrow> error + (string \<times> mafBlock \<times> mafFileApi)" where
  "header_advance header mfa =
     (let status = de_getline (mfa_mfp mfa);
          n = mfa_lineNumber mfa + 1;
          header' = header\<lparr>mb_lineNumber := n, mb_numberOfLines := mb_numberOfLines header + 1\<rparr>
      in case maf_checkForPrematureMafEnd status of
           Inl e \<Rightarrow> Inl e
         | Inr (line, f) \<Rightarrow> Inr (line, header', mfa\<lparr>mfa_lineNumber := n, mfa_mfp := f\<rparr>))"

text \<open>The branch of a first line that starts with \<open>track\<close>; the flag is \<open>validHeader\<close>.\<close>

definition header_track ::
  "string \<Rightarrow> mafBlock \<Rightarrow> mafFileApi \<Rightarrow> error + (bool \<times> string \<times> mafBlock \<times> mafFileApi)" where
  "header_track line header mfa =
     (if strncmp_eq line ''track'' then
        (case header_advance
                (header\<lparr>mb_lines := [header_line line (mfa_lineNumber mfa)]\<rparr>) mfa of
           Inl e \<Rightarrow> Inl e
         | Inr (line', header', mfa') \<Rightarrow> Inr (True, line', header', mfa'))
      else Inr (False, line, header, mfa))"

text \<open>The branch of a line that starts with \<open>##maf\<close>.\<close>

definition header_maf ::
  "bool \<Rightarrow> string \<Rightarrow> mafBlock \<Rightarrow> mafFileApi \<Rightarrow>
     error + (bool \<times> string \<times> mafBlock \<times> mafFileApi)" where
  "header_maf validHeader line header mfa =
     (if strncmp_eq line ''##maf'' then
        (let ml = header_line line (mfa_lineNumber mfa);
             ls = (case mb_lines header of [] \<Rightarrow> [ml] | h # _ \<Rightarrow> [h, ml])
         in case header_advance (header\<lparr>mb_lines := ls\<rparr>) mfa of
              Inl e \<Rightarrow> Inl e
            | Inr (line', header', mfa') \<Rightarrow> Inr (True, line', header', mfa'))
      else Inr (validHeader, line, header, mfa))"

text \<open>The loop that eats the file up to the first alignment block.\<close>

function header_loop ::
  "string \<Rightarrow> mafBlock \<Rightarrow> mafFileApi \<Rightarrow> error + (string \<times> mafBlock \<times> mafFileApi)" where
  "header_loop line header mfa =
     (if char0 line \<noteq> CHR ''a'' \<and> \<not> maf_isBlankLine line then
        (case header_advance
                (header\<lparr>mb_lines := mb_lines header @ [header_line line (mfa_lineNumber mfa)]\<rparr>)
                mfa of
           Inl e \<Rightarrow> Inl e
         | Inr (line', header', mfa') \<Rightarrow> header_loop line' header' mfa')
      else Inr (line, header, mfa))"
  by pat_completeness auto

lemma header_advance_shorter:
  "header_advance header mfa = Inr (line', header', mfa') \<Longrightarrow>
     mfa_mfp mfa = line' # mfa_mfp mfa'"
  by (auto simp: header_advance_def de_getline_def maf_checkForPrematureMafEnd_def Let_def
      split: list.splits)

termination header_loop
proof (relation "measure (\<lambda>(line, header, mfa). length (mfa_mfp mfa))")
  show "wf (measure (\<lambda>(line, header, mfa). length (mfa_mfp mfa)))"
    by simp
next
  fix line header mfa x2 line' y header' mfa'
  assume "header_advance
            (header\<lparr>mb_lines := mb_lines header @ [header_line line (mfa_lineNumber mfa)]\<rparr>)
            mfa = Inr x2"
    and "(line', y) = x2" and "(header', mfa') = y"
  then have "mfa_mfp mfa = line' # mfa_mfp mfa'"
    using header_advance_shorter by metis
  then show "((line', header', mfa'), (line, header, mfa))
      \<in> measure (\<lambda>(line, header, mfa). length (mfa_mfp mfa))"
    by simp
qed

declare header_loop.simps [simp del]

definition maf_readBlockHeader :: "mafFileApi \<Rightarrow> error + (mafBlock \<times> mafFileApi)" where
  "maf_readBlockHeader mfa =
     (let header = maf_newMafBlock;
          status = de_getline (mfa_mfp mfa);
          n = mfa_lineNumber mfa + 1
      in case maf_checkForPrematureMafEnd status of
        Inl e \<Rightarrow> Inl e
      | Inr (line, f) \<Rightarrow>
      (case header_track line header (mfa\<lparr>mfa_lineNumber := n, mfa_mfp := f\<rparr>) of
        Inl e \<Rightarrow> Inl e
      | Inr (valid1, line1, header1, mfa1) \<Rightarrow>
      (case header_maf valid1 line1 header1 mfa1 of
        Inl e \<Rightarrow> Inl e
      | Inr (validHeader, line2, header2, mfa2) \<Rightarrow>
      if \<not> validHeader then Inl (NoValidHeader (mfa_filename mfa))
      else
      (case header_loop line2 header2 mfa2 of
        Inl e \<Rightarrow> Inl e
      | Inr (line3, header3, mfa3) \<Rightarrow>
          Inr (header3,
               if char0 line3 = CHR ''a'' then mfa3\<lparr>mfa_lastLine := Some line3\<rparr>
               else mfa3)))))"

subsection \<open>Reading a body block\<close>

text \<open>Linking a parsed line at the tail of the block and counting it.\<close>

definition block_add :: "mafBlock \<Rightarrow> mafLine \<Rightarrow> mafBlock" where
  "block_add thisBlock ml =
     thisBlock\<lparr>mb_lines := mb_lines thisBlock @ [ml],
               mb_numberOfSequences :=
                 (if ml_type ml = CHR ''s'' then mb_numberOfSequences thisBlock + 1
                  else mb_numberOfSequences thisBlock),
               mb_numberOfLines := mb_numberOfLines thisBlock + 1\<rparr>"

text \<open>The \<open>while (de_getline(...) != -1)\<close> loop of \<open>maf_readBlockBody\<close>.\<close>

function body_loop :: "mafBlock \<Rightarrow> mafFileApi \<Rightarrow> error + (mafBlock \<times> mafFileApi)" where
  "body_loop thisBlock mfa =
     (case de_getline (mfa_mfp mfa) of
        None \<Rightarrow> Inr (thisBlock, mfa)
      | Some (line, f) \<Rightarrow>
          (let mfa' = mfa\<lparr>mfa_lineNumber := mfa_lineNumber mfa + 1, mfa_mfp := f\<rparr>
           in if maf_isBlankLine line then
                (if mb_lines thisBlock = [] then body_loop thisBlock mfa'
                 else Inr (thisBlock, mfa'))
              else
                (case maf_newMafLineFromString line (mfa_lineNumber mfa') of
                   Inl e \<Rightarrow> Inl e
                 | Inr ml \<Rightarrow> body_loop (block_add thisBlock ml) mfa')))"
  by pat_completeness auto
termination
  by (relation "measure (\<lambda>(thisBlock, mfa). length (mfa_mfp mfa))")
     (auto simp: de_getline_def split: list.splits)

declare body_loop.simps [simp del]

definition body_lastLine :: "mafBlock \<Rightarrow> mafFileApi \<Rightarrow> error + (mafBlock \<times> mafFileApi)" where
  "body_lastLine thisBlock mfa =
     (case mfa_lastLine mfa of
        None \<Rightarrow> Inr (thisBlock, mfa)
      | Some s \<Rightarrow>
          (case maf_newMafLineFromString s (mfa_lineNumber mfa) of
             Inl e \<Rightarrow> Inl e
           | Inr ml \<Rightarrow>
               Inr (thisBlock\<lparr>mb_lines := [ml],
                      mb_numberOfSequences :=
                        (if ml_type ml = CHR ''s'' then mb_numberOfSequences thisBlock + 1
                         else mb_numberOfSequences thisBlock),
                      mb_numberOfLines := mb_numberOfLines thisBlock + 1\<rparr>,
                    mfa\<lparr>mfa_lastLine := None\<rparr>)))"

definition maf_readBlockBody :: "mafFileApi \<Rightarrow> error + (mafBlock \<times> mafFileApi)" where
  "maf_readBlockBody mfa =
     (case body_lastLine maf_newMafBlock mfa of
        Inl e \<Rightarrow> Inl e
      | Inr (thisBlock, mfa') \<Rightarrow>
          body_loop (thisBlock\<lparr>mb_lineNumber := mfa_lineNumber mfa'\<rparr>) mfa')"

text \<open>\<open>maf_readBlock\<close>: \<open>None\<close> is the \<open>NULL\<close> it returns at the end of the file.\<close>

definition maf_readBlock :: "mafFileApi \<Rightarrow> error + (mafBlock option \<times> mafFileApi)" where
  "maf_readBlock mfa =
     (if mfa_lineNumber mfa = 0 then
        (case maf_readBlockHeader mfa of
           Inl e \<Rightarrow> Inl e
         | Inr (header, mfa') \<Rightarrow>
             if mb_lines header \<noteq> [] then Inr (Some header, mfa') else Inr (None, mfa'))
      else
        (case maf_readBlockBody mfa of
           Inl e \<Rightarrow> Inl e
         | Inr (mb, mfa') \<Rightarrow>
             if mb_lines mb \<noteq> [] then Inr (Some mb, mfa') else Inr (None, mfa')))"

subsection \<open>Reading the whole file\<close>

lemma header_loop_progress:
  "header_loop line header mfa = Inr (line', header', mfa') \<Longrightarrow>
     length (mfa_mfp mfa') \<le> length (mfa_mfp mfa)"
proof (induction line header mfa rule: header_loop.induct)
  case (1 line header mfa)
  show ?case
  proof (cases "char0 line \<noteq> CHR ''a'' \<and> \<not> maf_isBlankLine line")
    case True
    define h1 where
      "h1 = header\<lparr>mb_lines := mb_lines header @ [header_line line (mfa_lineNumber mfa)]\<rparr>"
    from "1.prems" True obtain l2 h2 mfa2 where
      a: "header_advance h1 mfa = Inr (l2, h2, mfa2)"
      and r: "header_loop l2 h2 mfa2 = Inr (line', header', mfa')"
      by (auto simp add: header_loop.simps [of line header mfa] h1_def split: sum.splits)
    from "1.IH" [OF True, folded h1_def, OF a refl refl r] header_advance_shorter [OF a]
    show ?thesis by simp
  next
    case False
    with "1.prems" show ?thesis
      by (auto simp add: header_loop.simps [of line header mfa])
  qed
qed

lemma maf_readBlockHeader_progress:
  assumes "maf_readBlockHeader mfa = Inr (header, mfa')"
  shows "length (mfa_mfp mfa') < length (mfa_mfp mfa)"
proof -
  from assms obtain line f v1 l1 h1 m1 v2 l2 h2 m2 l3 m3 where
    g: "mfa_mfp mfa = line # f"
    and t: "header_track line maf_newMafBlock
              (mfa\<lparr>mfa_lineNumber := mfa_lineNumber mfa + 1, mfa_mfp := f\<rparr>)
            = Inr (v1, l1, h1, m1)"
    and m: "header_maf v1 l1 h1 m1 = Inr (v2, l2, h2, m2)"
    and l: "header_loop l2 h2 m2 = Inr (l3, header, m3)"
    and e: "mfa_mfp mfa' = mfa_mfp m3"
    by (auto simp add: maf_readBlockHeader_def de_getline_def maf_checkForPrematureMafEnd_def
        Let_def split: list.splits sum.splits if_splits)
  from t have "length (mfa_mfp m1) \<le> length f"
    by (auto simp add: header_track_def split: if_splits sum.splits
        dest!: header_advance_shorter)
  moreover from m have "length (mfa_mfp m2) \<le> length (mfa_mfp m1)"
    by (auto simp add: header_maf_def Let_def split: if_splits sum.splits
        dest!: header_advance_shorter)
  moreover note header_loop_progress [OF l]
  ultimately show ?thesis using g e by simp
qed

lemma body_loop_progress:
  "body_loop thisBlock mfa = Inr (b, mfa') \<Longrightarrow>
     mfa_lastLine mfa' = mfa_lastLine mfa \<and> length (mfa_mfp mfa') \<le> length (mfa_mfp mfa) \<and>
     (mb_lines thisBlock = [] \<and> mb_lines b \<noteq> [] \<longrightarrow>
        length (mfa_mfp mfa') < length (mfa_mfp mfa))"
proof (induction thisBlock mfa rule: body_loop.induct)
  case (1 thisBlock mfa)
  show ?case
  proof (cases "mfa_mfp mfa")
    case Nil
    with "1.prems" show ?thesis
      by (simp add: body_loop.simps [of thisBlock mfa] de_getline_def)
  next
    case (Cons line f)
    define mfa1 where "mfa1 = mfa\<lparr>mfa_lineNumber := mfa_lineNumber mfa + 1, mfa_mfp := f\<rparr>"
    have g: "de_getline (mfa_mfp mfa) = Some (line, f)"
      by (simp add: Cons de_getline_def)
    show ?thesis
    proof (cases "maf_isBlankLine line")
      case True
      show ?thesis
      proof (cases "mb_lines thisBlock = []")
        case e: True
        from "1.prems" have r: "body_loop thisBlock mfa1 = Inr (b, mfa')"
          by (simp add: body_loop.simps [of thisBlock mfa] g True e mfa1_def)
        from "1.IH"(1) [OF g refl, folded mfa1_def, OF refl True e r]
        show ?thesis by (simp add: mfa1_def Cons)
      next
        case False
        with "1.prems" True show ?thesis
          by (auto simp add: body_loop.simps [of thisBlock mfa] de_getline_def Cons)
      qed
    next
      case False
      from "1.prems" False obtain ml where
        p: "maf_newMafLineFromString line (mfa_lineNumber mfa1) = Inr ml"
        and r: "body_loop (block_add thisBlock ml) mfa1 = Inr (b, mfa')"
        by (auto simp add: body_loop.simps [of thisBlock mfa] g mfa1_def split: sum.splits)
      from "1.IH"(2) [OF g refl, folded mfa1_def, OF refl False p r]
      show ?thesis by (simp add: mfa1_def Cons)
    qed
  qed
qed

lemma maf_readBlockBody_progress:
  assumes "maf_readBlockBody mfa = Inr (b, mfa')"
  shows "mfa_lastLine mfa' = None"
    and "length (mfa_mfp mfa') \<le> length (mfa_mfp mfa)"
    and "mfa_lastLine mfa = None \<Longrightarrow> mb_lines b \<noteq> [] \<Longrightarrow>
           length (mfa_mfp mfa') < length (mfa_mfp mfa)"
proof -
  from assms obtain b0 m0 where
    l: "body_lastLine maf_newMafBlock mfa = Inr (b0, m0)"
    and r: "body_loop (b0\<lparr>mb_lineNumber := mfa_lineNumber m0\<rparr>) m0 = Inr (b, mfa')"
    by (auto simp add: maf_readBlockBody_def split: sum.splits)
  from l have m0: "mfa_lastLine m0 = None" "mfa_mfp m0 = mfa_mfp mfa"
    and b0: "mfa_lastLine mfa = None \<Longrightarrow> mb_lines b0 = []"
    by (auto simp add: body_lastLine_def maf_newMafBlock_def split: option.splits sum.splits)
  from body_loop_progress [OF r] m0 b0
  show "mfa_lastLine mfa' = None"
    and "length (mfa_mfp mfa') \<le> length (mfa_mfp mfa)"
    and "mfa_lastLine mfa = None \<Longrightarrow> mb_lines b \<noteq> [] \<Longrightarrow>
           length (mfa_mfp mfa') < length (mfa_mfp mfa)"
    by simp_all
qed

text \<open>What is left to read: the lines of the stream, and the buffered line.\<close>

definition unread :: "mafFileApi \<Rightarrow> nat" where
  "unread mfa = 2 * length (mfa_mfp mfa) + (case mfa_lastLine mfa of None \<Rightarrow> 0 | Some _ \<Rightarrow> 1)"

lemma maf_readBlock_unread:
  assumes "maf_readBlock mfa = Inr (Some b, mfa')"
  shows "unread mfa' < unread mfa"
proof (cases "mfa_lineNumber mfa = 0")
  case True
  with assms obtain h where "maf_readBlockHeader mfa = Inr (h, mfa')"
    by (auto simp add: maf_readBlock_def split: sum.splits if_splits)
  from maf_readBlockHeader_progress [OF this] show ?thesis
    by (simp add: unread_def split: option.splits)
next
  case False
  with assms have r: "maf_readBlockBody mfa = Inr (b, mfa')" and ne: "mb_lines b \<noteq> []"
    by (auto simp add: maf_readBlock_def split: sum.splits if_splits)
  from maf_readBlockBody_progress [OF r] ne show ?thesis
    by (cases "mfa_lastLine mfa") (auto simp add: unread_def)
qed

text \<open>The \<open>while ((tmp = maf_readBlock(mfa)) != NULL)\<close> loop of \<open>maf_readAll\<close>.\<close>

function readAll_loop :: "mafFileApi \<Rightarrow> error + (mafBlock list \<times> mafFileApi)" where
  "readAll_loop mfa =
     (case maf_readBlock mfa of
        Inl e \<Rightarrow> Inl e
      | Inr (None, mfa') \<Rightarrow> Inr ([], mfa')
      | Inr (Some tmp, mfa') \<Rightarrow>
          (case readAll_loop mfa' of
             Inl e \<Rightarrow> Inl e
           | Inr (bs, mfa'') \<Rightarrow> Inr (tmp # bs, mfa'')))"
  by pat_completeness auto
termination
proof (relation "measure unread")
  show "wf (measure unread)" by simp
next
  fix mfa x2 x1 mfa' tmp
  assume "maf_readBlock mfa = Inr x2" "(x1, mfa') = x2" "x1 = Some tmp"
  then have "maf_readBlock mfa = Inr (Some tmp, mfa')" by simp
  from maf_readBlock_unread [OF this] show "(mfa', mfa) \<in> measure unread" by simp
qed

declare readAll_loop.simps [simp del]

text \<open>
  \<open>maf_readAll\<close>: the blocks in the order of the \<open>next\<close> pointers. When the first
  \<open>maf_readBlock\<close> returns \<open>NULL\<close>, the first block found after it is linked through the
  \<open>NULL\<close> pointer \<open>mb\<close>.
\<close>

definition maf_readAll :: "mafFileApi \<Rightarrow> error + (mafBlock list \<times> mafFileApi)" where
  "maf_readAll mfa =
     (case maf_readBlock mfa of
        Inl e \<Rightarrow> Inl e
      | Inr (Some head, mfa') \<Rightarrow>
          (case readAll_loop mfa' of
             Inl e \<Rightarrow> Inl e
           | Inr (bs, mfa'') \<Rightarrow> Inr (head # bs, mfa''))
      | Inr (None, mfa') \<Rightarrow>
          (case maf_readBlock mfa' of
             Inl e \<Rightarrow> Inl e
           | Inr (None, mfa'') \<Rightarrow> Inr ([], mfa'')
           | Inr (Some tmp, mfa'') \<Rightarrow> Inl NullDereference))"

subsection \<open>Writing\<close>

definition newline :: char where
  "newline = CHR 0x0A"

definition fprintf :: "mafFileApi \<Rightarrow> string \<Rightarrow> mafFileApi" where
  "fprintf mfa s = mfa\<lparr>mfa_out := mfa_out mfa @ s\<rparr>"

fun writeBlock_loop :: "mafFileApi \<Rightarrow> mafLine list \<Rightarrow> mafFileApi" where
  "writeBlock_loop mfa [] = mfa"
| "writeBlock_loop mfa (ml # mls) =
     writeBlock_loop
       ((fprintf mfa (ml_line ml @ [newline]))\<lparr>mfa_lineNumber := mfa_lineNumber mfa + 1\<rparr>) mls"

definition maf_writeBlock :: "mafFileApi \<Rightarrow> mafBlock \<Rightarrow> mafFileApi" where
  "maf_writeBlock mfa mb =
     (let mfa' = writeBlock_loop mfa (mb_lines mb)
      in (fprintf mfa' [newline])\<lparr>mfa_lineNumber := mfa_lineNumber mfa' + 1\<rparr>)"

fun writeAll_loop :: "mafFileApi \<Rightarrow> mafBlock list \<Rightarrow> mafFileApi" where
  "writeAll_loop mfa [] = mfa"
| "writeAll_loop mfa (mb # mbs) = writeAll_loop (maf_writeBlock mfa mb) mbs"

definition maf_writeAll :: "mafFileApi \<Rightarrow> mafBlock list \<Rightarrow> mafFileApi" where
  "maf_writeAll mfa mbs =
     (let mfa' = writeAll_loop mfa mbs
      in (fprintf mfa' [newline])\<lparr>mfa_lineNumber := mfa_lineNumber mfa' + 1, mfa_open := False\<rparr>)"

subsection \<open>Derived views of a block\<close>

text \<open>
  The inner loop of \<open>maf_mafBlock_getSequenceMatrix\<close>,
  \<^verbatim>\<open>while (maf_mafLine_getType(ml) != 's') ml = maf_mafLine_getNext(ml);\<close>
  which reads the type of \<open>ml\<close> without testing \<open>ml\<close> against \<open>NULL\<close>.
\<close>

fun skip_to_seq :: "mafLine list \<Rightarrow> error + mafLine list" where
  "skip_to_seq [] = Inl NullDereference"
| "skip_to_seq (ml # mls) = (if ml_type ml \<noteq> CHR ''s'' then skip_to_seq mls else Inr (ml # mls))"

lemma skip_to_seq_shorter:
  "skip_to_seq mls = Inr (s # rest) \<Longrightarrow> length rest < length mls"
  by (induction mls) (auto split: if_splits)

text \<open>
  The outer loop. A row of the matrix is \<open>None\<close> until it is written; it has room for
  \<open>m + 1\<close> bytes, the sum taken in \<open>unsigned\<close> arithmetic; the matrix has \<open>n\<close> rows.
  The index \<open>i\<close> is a \<open>nat\<close>: the loop leaves the matrix before an \<open>unsigned\<close> could wrap.
\<close>

function matrix_loop ::
  "mafLine list \<Rightarrow> nat \<Rightarrow> string option list \<Rightarrow> u32 \<Rightarrow> error + string option list" where
  "matrix_loop [] i matrix m = Inr matrix"
| "matrix_loop (ml # mls) i matrix m =
     (case skip_to_seq (ml # mls) of
        Inl e \<Rightarrow> Inl e
      | Inr [] \<Rightarrow> Inl NullDereference
      | Inr (s # rest) \<Rightarrow>
          if \<not> i < length matrix then Inl OutOfBounds
          else if \<not> unat m < unat (m + 1) then Inl OutOfBounds
          else
            (case ml_sequence s of
               None \<Rightarrow> Inl NullDereference
             | Some sq \<Rightarrow>
                 matrix_loop rest (i + 1)
                   (matrix[i := Some (strncpy sq (unat m) @ [NUL])]) m))"
  by pat_completeness auto
termination
proof (relation "measure (\<lambda>(mls, i, matrix, m). length mls)")
  show "wf (measure (\<lambda>(mls, i, matrix, m). length mls))" by simp
next
  fix ml mls i matrix m x2 s rest sq
  assume "skip_to_seq (ml # mls) = Inr x2" "x2 = s # rest"
  then have "length rest < length (ml # mls)"
    using skip_to_seq_shorter by blast
  then show "((rest, i + 1, matrix[i := Some (strncpy sq (unat m) @ [NUL])], m),
              (ml # mls, i, matrix, m)) \<in> measure (\<lambda>(mls, i, matrix, m). length mls)"
    by simp
qed

definition maf_mafBlock_getSequenceMatrix ::
  "mafBlock \<Rightarrow> u32 \<Rightarrow> u32 \<Rightarrow> error + string option list" where
  "maf_mafBlock_getSequenceMatrix mb n m =
     matrix_loop (mb_lines mb) 0 (replicate (unat n) None) m"

text \<open>
  The loop the array builders share: every sequence line stores \<open>g ml\<close> at \<open>a[i++]\<close>. An
  entry of the array is \<open>None\<close> until it is written; a store outside the array is an error.
\<close>

fun array_loop ::
  "(mafLine \<Rightarrow> 'a) \<Rightarrow> mafLine list \<Rightarrow> nat \<Rightarrow> 'a option list \<Rightarrow> error + (nat \<times> 'a option list)"
  where
  "array_loop g [] i a = Inr (i, a)"
| "array_loop g (ml # mls) i a =
     (if ml_type ml = CHR ''s'' then
        (if i < length a then array_loop g mls (i + 1) (a[i := Some (g ml)])
         else Inl OutOfBounds)
      else array_loop g mls i a)"

text \<open>\<open>None\<close> is the \<open>NULL\<close> returned for a block without sequences.\<close>

definition maf_mafBlock_getStrandArray :: "mafBlock \<Rightarrow> error + char option list option" where
  "maf_mafBlock_getStrandArray mb =
     (if mb_numberOfSequences mb = 0 then Inr None
      else
        (case array_loop ml_strand (mb_lines mb) 0
                (replicate (unat (mb_numberOfSequences mb + 1)) None) of
           Inl e \<Rightarrow> Inl e
         | Inr (i, a) \<Rightarrow>
             if i < length a then Inr (Some (a[i := Some NUL])) else Inl OutOfBounds))"

text \<open>The array of pointers to the sequence lines; a pointer is the line it points to.\<close>

definition maf_mafBlock_getMafLineArray_seqOnly ::
  "mafBlock \<Rightarrow> error + mafLine option list option" where
  "maf_mafBlock_getMafLineArray_seqOnly mb =
     (if mb_numberOfSequences mb = 0 then Inr None
      else
        (case array_loop (\<lambda>ml. ml) (mb_lines mb) 0
                (replicate (unat (mb_numberOfSequences mb)) None) of
           Inl e \<Rightarrow> Inl e
         | Inr (i, a) \<Rightarrow> Inr (Some a)))"

subsection \<open>Notions used to state the properties\<close>

text \<open>The \<open>k\<close>-th token of a line, counted from 0, as successive \<open>strtok\<close> calls find it.\<close>

fun field :: "nat \<Rightarrow> string \<Rightarrow> string option" where
  "field 0 s = map_option fst (strtok s)"
| "field (Suc k) s = (case strtok s of None \<Rightarrow> None | Some (t, r) \<Rightarrow> field k r)"

text \<open>The sequence lines of a block, and its raw lines.\<close>

definition seq_lines :: "mafBlock \<Rightarrow> mafLine list" where
  "seq_lines mb = filter (\<lambda>ml. ml_type ml = CHR ''s'') (mb_lines mb)"

definition raw_lines :: "mafBlock \<Rightarrow> string list" where
  "raw_lines mb = map ml_line (mb_lines mb)"

text \<open>A line the parser accepts; the line number plays no part in that.\<close>

definition parses :: "string \<Rightarrow> bool" where
  "parses s = (\<not> isl (maf_newMafLineFromString s 0))"

text \<open>A line of an alignment block: not blank, and accepted by the parser.\<close>

definition block_line :: "string \<Rightarrow> bool" where
  "block_line s = (\<not> maf_isBlankLine s \<and> parses s)"

text \<open>A line the header loop takes as header content.\<close>

definition header_ok :: "string \<Rightarrow> bool" where
  "header_ok l = (char0 l \<noteq> CHR ''a'' \<and> \<not> maf_isBlankLine l)"

text \<open>The records of consecutive lines, the first of them numbered \<open>n + 1\<close>.\<close>

fun records :: "u32 \<Rightarrow> string list \<Rightarrow> mafLine list" where
  "records n [] = []"
| "records n (l # ls) = projr (maf_newMafLineFromString l (n + 1)) # records (n + 1) ls"

text \<open>The header records of consecutive lines, the first of them numbered \<open>n\<close>.\<close>

fun header_records :: "u32 \<Rightarrow> string list \<Rightarrow> mafLine list" where
  "header_records n [] = []"
| "header_records n (l # ls) = header_line l n # header_records (n + 1) ls"

text \<open>
  The header block of the lines \<open>hs\<close> read by a session that had counted \<open>n\<close> lines: its
  \<open>lineNumber\<close> is the number of the line that ended the header.
\<close>

definition header_block :: "u32 \<Rightarrow> string list \<Rightarrow> mafBlock" where
  "header_block n hs =
     \<lparr>mb_lines = header_records (n + 1) hs, mb_lineNumber = n + of_nat (length hs + 1),
      mb_numberOfLines = of_nat (length hs), mb_numberOfSequences = 0\<rparr>"

text \<open>The text of a list of lines, each with its line terminator.\<close>

definition unlines :: "string list \<Rightarrow> string" where
  "unlines ls = concat (map (\<lambda>l. l @ [newline]) ls)"

text \<open>
  What a session has still to hand out: the buffered line, and the lines of the stream that
  are not blank.
\<close>

definition content :: "mafFileApi \<Rightarrow> string list" where
  "content mfa =
     (case mfa_lastLine mfa of None \<Rightarrow> [] | Some l \<Rightarrow> [l])
       @ filter (\<lambda>l. \<not> maf_isBlankLine l) (mfa_mfp mfa)"

text \<open>
  \<open>mfa'\<close> is \<open>mfa\<close> after \<open>k\<close> more lines were read from the stream and counted.
\<close>

definition advanced :: "mafFileApi \<Rightarrow> mafFileApi \<Rightarrow> nat \<Rightarrow> bool" where
  "advanced mfa mfa' k =
     (length (mfa_mfp mfa) = k + length (mfa_mfp mfa') \<and>
      mfa_lineNumber mfa' = mfa_lineNumber mfa + of_nat k \<and>
      mfa_filename mfa' = mfa_filename mfa)"

text \<open>
  A session that has counted a line, with room in the \<open>uint32_t\<close> counter for every line left
  in the stream: \<open>maf_readBlock\<close> reads a body block, now and later.
\<close>

definition in_body :: "mafFileApi \<Rightarrow> bool" where
  "in_body mfa =
     (mfa_lineNumber mfa \<noteq> 0 \<and> unat (mfa_lineNumber mfa) + length (mfa_mfp mfa) < 2 ^ 32)"

text \<open>The row of the sequence matrix for a sequence line, as \<open>m + 1\<close> bytes.\<close>

definition matrix_row :: "u32 \<Rightarrow> mafLine \<Rightarrow> string option" where
  "matrix_row m ml = Some (strncpy (the (ml_sequence ml)) (unat m) @ [NUL])"

text \<open>
  The maximal runs of lines that are not blank: every run of blank lines, however long,
  separates two of them, and blank lines before the first and after the last count for nothing.
\<close>

function groups :: "string list \<Rightarrow> string list list" where
  "groups [] = []"
| "groups (l # ls) =
     (if maf_isBlankLine l then groups ls
      else (l # takeWhile (\<lambda>x. \<not> maf_isBlankLine x) ls)
             # groups (dropWhile (\<lambda>x. \<not> maf_isBlankLine x) ls))"
  by pat_completeness auto
termination
  by (relation "measure length") (auto simp add: length_dropWhile_le less_Suc_eq_le)

text \<open>
  The blocks of a file, as lists of raw lines: the header is the first line and the lines
  after it up to the first line that is blank or starts with \<open>a\<close>; the alignment blocks are
  the runs of what follows, the line that ended the header included.
\<close>

definition file_blocks :: "string list \<Rightarrow> string list list" where
  "file_blocks ls =
     (case ls of
        [] \<Rightarrow> []
      | h0 # rest \<Rightarrow> (h0 # takeWhile header_ok rest) # groups (dropWhile header_ok rest))"

text \<open>What a session has still to read: the buffered line, then the lines of the stream.\<close>

definition pending :: "mafFileApi \<Rightarrow> string list" where
  "pending mfa = (case mfa_lastLine mfa of None \<Rightarrow> [] | Some l \<Rightarrow> [l]) @ mfa_mfp mfa"

text \<open>Examples: a sequence line on the minus strand, a body block, a file.\<close>

definition minus_line :: mafLine where
  "minus_line =
     \<lparr>ml_line = ''s hg18.chr1 10 5 - 100 AC-GT'', ml_lineNumber = 7, ml_type = CHR ''s'',
      ml_species = Some ''hg18.chr1'', ml_start = 10, ml_length = 5,
      ml_strand = CHR ''-'', ml_sourceLength = 100, ml_sequence = Some ''AC-GT''\<rparr>"

definition example_body :: mafFileApi where
  "example_body =
     (maf_newMfa ''x.maf''
        [''a score=1'', ''s hg18.chr1 10 5 + 100 ACGTA'', ''s mm9.chr2 0 4 - 50 A-CGT'',
         ''i mm9.chr2 N 0 C 0'', ''''])\<lparr>mfa_lineNumber := 2\<rparr>"

definition example_block :: mafBlock where
  "example_block = fst (projr (maf_readBlockBody example_body))"

definition example_file :: "string list" where
  "example_file =
     [''##maf version=1'', ''a score=1'', ''s hg18.chr1 10 5 + 100 ACGTA'', '''', '' '',
      ''a score=2'', ''s mm9.chr2 0 4 - 50 A-CGT'']"

section \<open>Properties\<close>

subsection \<open>Evaluating the parser and the reader\<close>

lemma field4:
  "field 4 s = (case strtok s of None \<Rightarrow> None | Some (t0, r0) \<Rightarrow>
      (case strtok r0 of None \<Rightarrow> None | Some (t1, r1) \<Rightarrow>
      (case strtok r1 of None \<Rightarrow> None | Some (t2, r2) \<Rightarrow>
      (case strtok r2 of None \<Rightarrow> None | Some (t3, r3) \<Rightarrow>
      (case strtok r3 of None \<Rightarrow> None | Some (t4, r4) \<Rightarrow> Some t4)))))"
  by (simp add: eval_nat_numeral split: option.splits)

lemmas parse_eval = maf_newMafLineFromString_def strtok_def is_delim_def char0_def strtoul_def
  isspace_def isdigit_def Let_def maf_failBadFormat_def strand_error_def NUL_def

lemmas read_eval = maf_readAll_def maf_readBlock_def maf_readBlockHeader_def maf_readBlockBody_def
  body_lastLine_def header_track_def header_maf_def header_advance_def header_line_def
  maf_checkForPrematureMafEnd_def de_getline_def maf_newMafBlock_def maf_newMafLine_def
  maf_newMfa_def block_add_def strncmp_eq_def readAll_loop.simps body_loop.simps header_loop.simps

lemmas line_eval = block_line_def parses_def header_ok_def strncmp_eq_def parse_eval

lemma example_block_eq:
  "example_block =
    \<lparr>mb_lines =
       [\<lparr>ml_line = ''a score=1'', ml_lineNumber = 3, ml_type = CHR ''a'', ml_species = None,
         ml_start = 0, ml_length = 0, ml_strand = NUL, ml_sourceLength = 0,
         ml_sequence = None\<rparr>,
        \<lparr>ml_line = ''s hg18.chr1 10 5 + 100 ACGTA'', ml_lineNumber = 4, ml_type = CHR ''s'',
         ml_species = Some ''hg18.chr1'', ml_start = 10, ml_length = 5, ml_strand = CHR ''+'',
         ml_sourceLength = 100, ml_sequence = Some ''ACGTA''\<rparr>,
        \<lparr>ml_line = ''s mm9.chr2 0 4 - 50 A-CGT'', ml_lineNumber = 5, ml_type = CHR ''s'',
         ml_species = Some ''mm9.chr2'', ml_start = 0, ml_length = 4, ml_strand = CHR ''-'',
         ml_sourceLength = 50, ml_sequence = Some ''A-CGT''\<rparr>,
        \<lparr>ml_line = ''i mm9.chr2 N 0 C 0'', ml_lineNumber = 6, ml_type = CHR ''i'',
         ml_species = None, ml_start = 0, ml_length = 0, ml_strand = NUL, ml_sourceLength = 0,
         ml_sequence = None\<rparr>],
      mb_lineNumber = 2, mb_numberOfLines = 4, mb_numberOfSequences = 2\<rparr>"
  by (simp add: example_block_def example_body_def read_eval parse_eval)

subsection \<open>Positive coordinates\<close>

lemma unat_sub_succ:
  fixes a b :: u32
  assumes "unat a < unat b"
  shows "unat (b - (a + 1)) = unat b - unat a - 1"
  using assms by unat_arith

lemma unat_sub_sum:
  fixes a b c :: u32
  assumes "unat a + unat c \<le> unat b"
  shows "unat (b - (a + c)) = unat b - (unat a + unat c)"
  using assms by unat_arith

text \<open>
  C6. On the \<open>+\<close> strand both coordinates are the stored start. On the \<open>-\<close> strand the
  positive start is \<open>sourceLength - start - 1\<close> and the positive left edge is
  \<open>sourceLength - (start + length)\<close>, in the \<open>uint32_t\<close> arithmetic of the fields; where the
  span lies inside the source these are the same differences of natural numbers.
\<close>

theorem positive_coordinates:
  "(ml_strand ml = CHR ''+'' \<longrightarrow>
      maf_mafLine_getPositiveCoord ml = ml_start ml \<and>
      maf_mafLine_getPositiveLeftCoord ml = ml_start ml) \<and>
   (ml_strand ml = CHR ''-'' \<longrightarrow>
      maf_mafLine_getPositiveCoord ml = ml_sourceLength ml - ml_start ml - 1 \<and>
      maf_mafLine_getPositiveLeftCoord ml = ml_sourceLength ml - (ml_start ml + ml_length ml)) \<and>
   (ml_strand ml = CHR ''-'' \<and> unat (ml_start ml) < unat (ml_sourceLength ml) \<longrightarrow>
      unat (maf_mafLine_getPositiveCoord ml)
        = unat (ml_sourceLength ml) - unat (ml_start ml) - 1) \<and>
   (ml_strand ml = CHR ''-'' \<and>
    unat (ml_start ml) + unat (ml_length ml) \<le> unat (ml_sourceLength ml) \<longrightarrow>
      unat (maf_mafLine_getPositiveLeftCoord ml)
        = unat (ml_sourceLength ml) - (unat (ml_start ml) + unat (ml_length ml)))"
  by (simp add: maf_mafLine_getPositiveCoord_def maf_mafLine_getPositiveLeftCoord_def
      unat_sub_succ unat_sub_sum diff_diff_eq)

theorem positive_coordinates_witness:
  "maf_mafLine_getPositiveCoord minus_line = 89 \<and>
   maf_mafLine_getPositiveLeftCoord minus_line = 85 \<and>
   maf_mafLine_getPositiveCoord (minus_line\<lparr>ml_strand := CHR ''+''\<rparr>) = 10 \<and>
   maf_mafLine_getPositiveLeftCoord (minus_line\<lparr>ml_strand := CHR ''+''\<rparr>) = 10"
  using positive_coordinates [of minus_line]
    positive_coordinates [of "minus_line\<lparr>ml_strand := CHR ''+''\<rparr>"]
  by (simp add: minus_line_def)

subsection \<open>The body loop\<close>

lemma parse_fields:
  "maf_newMafLineFromString s n = Inr ml \<Longrightarrow>
     ml_line ml = s \<and> ml_lineNumber ml = n \<and> ml_type ml = char0 s"
  by (auto simp add: maf_newMafLineFromString_def maf_failBadFormat_def Let_def
      split: if_splits option.splits)

lemma parse_isl: "isl (maf_newMafLineFromString s n) = isl (maf_newMafLineFromString s n')"
  by (simp add: maf_newMafLineFromString_def maf_failBadFormat_def Let_def
      split: option.splits)

lemma parses_Inr: "parses s \<Longrightarrow> \<exists>ml. maf_newMafLineFromString s n = Inr ml"
  unfolding parses_def using parse_isl [of s n 0]
  by (cases "maf_newMafLineFromString s n") auto

lemma parses_projr:
  "parses s \<Longrightarrow> maf_newMafLineFromString s n = Inr (projr (maf_newMafLineFromString s n))"
  using parses_Inr [of s n] by auto

lemma records_raw: "list_all parses ls \<Longrightarrow> map ml_line (records n ls) = ls"
  by (induction ls arbitrary: n) (auto dest: parses_projr parse_fields)

lemma records_length: "length (records n ls) = length ls"
  by (induction ls arbitrary: n) auto

lemma body_loop_eof: "mfa_mfp mfa = [] \<Longrightarrow> body_loop b mfa = Inr (b, mfa)"
  by (simp add: body_loop.simps [of b mfa] de_getline_def)

lemma body_loop_stop:
  "mb_lines b \<noteq> [] \<Longrightarrow> mfa_mfp mfa = l # rest \<Longrightarrow> maf_isBlankLine l \<Longrightarrow>
     body_loop b mfa = Inr (b, mfa\<lparr>mfa_lineNumber := mfa_lineNumber mfa + 1, mfa_mfp := rest\<rparr>)"
  by (simp add: body_loop.simps [of b mfa] de_getline_def)

lemma body_loop_skip:
  "list_all maf_isBlankLine bl \<Longrightarrow> mb_lines b = [] \<Longrightarrow> mfa_mfp mfa = bl @ rest \<Longrightarrow>
     body_loop b mfa =
     body_loop b (mfa\<lparr>mfa_lineNumber := mfa_lineNumber mfa + of_nat (length bl),
                       mfa_mfp := rest\<rparr>)"
proof (induction bl arbitrary: mfa)
  case Nil
  then show ?case by auto
next
  case (Cons l bl)
  define mfa1 where "mfa1 = mfa\<lparr>mfa_lineNumber := mfa_lineNumber mfa + 1, mfa_mfp := bl @ rest\<rparr>"
  from Cons.prems have "body_loop b mfa = body_loop b mfa1"
    by (simp add: body_loop.simps [of b mfa] de_getline_def mfa1_def)
  also have "\<dots> = body_loop b (mfa1\<lparr>mfa_lineNumber := mfa_lineNumber mfa1 + of_nat (length bl),
                       mfa_mfp := rest\<rparr>)"
    using Cons.prems by (intro Cons.IH) (simp_all add: mfa1_def)
  finally show ?case by (simp add: mfa1_def ac_simps)
qed

lemma body_loop_run:
  "list_all block_line ls \<Longrightarrow> mfa_mfp mfa = ls @ rest \<Longrightarrow>
     body_loop b mfa =
     body_loop (foldl block_add b (records (mfa_lineNumber mfa) ls))
       (mfa\<lparr>mfa_lineNumber := mfa_lineNumber mfa + of_nat (length ls), mfa_mfp := rest\<rparr>)"
proof (induction ls arbitrary: mfa b)
  case Nil
  then show ?case by auto
next
  case (Cons l ls)
  define mfa1 where "mfa1 = mfa\<lparr>mfa_lineNumber := mfa_lineNumber mfa + 1, mfa_mfp := ls @ rest\<rparr>"
  define ml where "ml = projr (maf_newMafLineFromString l (mfa_lineNumber mfa + 1))"
  from Cons.prems have nb: "\<not> maf_isBlankLine l" and p: "parses l"
    by (simp_all add: block_line_def)
  have pl: "maf_newMafLineFromString l (mfa_lineNumber mfa + 1) = Inr ml"
    unfolding ml_def by (rule parses_projr [OF p])
  from Cons.prems nb pl have "body_loop b mfa = body_loop (block_add b ml) mfa1"
    by (simp add: body_loop.simps [of b mfa] de_getline_def mfa1_def)
  also have "\<dots> = body_loop (foldl block_add (block_add b ml) (records (mfa_lineNumber mfa1) ls))
       (mfa1\<lparr>mfa_lineNumber := mfa_lineNumber mfa1 + of_nat (length ls), mfa_mfp := rest\<rparr>)"
    using Cons.prems by (intro Cons.IH) (simp_all add: mfa1_def)
  finally show ?case by (simp add: mfa1_def ml_def ac_simps)
qed

lemma foldl_block_add_lines [simp]:
  "mb_lines (foldl block_add b mls) = mb_lines b @ mls"
  by (induction mls arbitrary: b) (simp_all add: block_add_def)

lemma foldl_block_add_lineNumber [simp]:
  "mb_lineNumber (foldl block_add b mls) = mb_lineNumber b"
  by (induction mls arbitrary: b) (simp_all add: block_add_def)

lemma foldl_block_add_numberOfLines [simp]:
  "mb_numberOfLines (foldl block_add b mls) = mb_numberOfLines b + of_nat (length mls)"
  by (induction mls arbitrary: b) (simp_all add: block_add_def ac_simps)

lemma foldl_block_add_numberOfSequences [simp]:
  "mb_numberOfSequences (foldl block_add b mls) =
     mb_numberOfSequences b + of_nat (length (filter (\<lambda>ml. ml_type ml = CHR ''s'') mls))"
  by (induction mls arbitrary: b) (simp_all add: block_add_def ac_simps)

lemma readBody_plain_eq:
  "mfa_lastLine mfa = None \<Longrightarrow>
     maf_readBlockBody mfa = body_loop (maf_newMafBlock\<lparr>mb_lineNumber := mfa_lineNumber mfa\<rparr>) mfa"
  by (simp add: maf_readBlockBody_def body_lastLine_def)

lemma readBody_plain:
  assumes "mfa_lastLine mfa = None"
    and "mfa_mfp mfa = bl @ ls @ rest"
    and "list_all maf_isBlankLine bl"
    and "list_all block_line ls" and "ls \<noteq> []"
    and "rest = [] \<or> maf_isBlankLine (hd rest)"
  shows "maf_readBlockBody mfa =
     Inr (foldl block_add (maf_newMafBlock\<lparr>mb_lineNumber := mfa_lineNumber mfa\<rparr>)
            (records (mfa_lineNumber mfa + of_nat (length bl)) ls),
          mfa\<lparr>mfa_lineNumber :=
                 mfa_lineNumber mfa + of_nat (length bl + length ls + (if rest = [] then 0 else 1)),
               mfa_mfp := tl rest\<rparr>)"
proof -
  define b0 where "b0 = maf_newMafBlock\<lparr>mb_lineNumber := mfa_lineNumber mfa\<rparr>"
  define m1 where "m1 = mfa\<lparr>mfa_lineNumber := mfa_lineNumber mfa + of_nat (length bl),
                       mfa_mfp := ls @ rest\<rparr>"
  define b1 where "b1 = foldl block_add b0 (records (mfa_lineNumber m1) ls)"
  define m2 where "m2 = m1\<lparr>mfa_lineNumber := mfa_lineNumber m1 + of_nat (length ls),
                       mfa_mfp := rest\<rparr>"
  have e: "mb_lines b0 = []" by (simp add: b0_def maf_newMafBlock_def)
  have "maf_readBlockBody mfa = body_loop b0 mfa"
    using assms(1) by (simp add: readBody_plain_eq b0_def)
  also have "\<dots> = body_loop b0 m1"
    unfolding m1_def by (rule body_loop_skip [OF assms(3) e assms(2)])
  also have "\<dots> = body_loop b1 m2"
    unfolding b1_def m2_def by (rule body_loop_run [OF assms(4)]) (simp add: m1_def)
  finally have s: "maf_readBlockBody mfa = body_loop b1 m2" .
  have ne: "mb_lines b1 \<noteq> []"
    using assms(5) records_length [of "mfa_lineNumber m1" ls] by (auto simp add: b1_def e)
  show ?thesis
  proof (cases rest)
    case Nil
    then have "mfa_mfp m2 = []" by (simp add: m2_def)
    from body_loop_eof [OF this, of b1] s Nil show ?thesis
      by (simp add: b1_def m2_def m1_def b0_def)
  next
    case (Cons r rs)
    with assms(6) have "maf_isBlankLine r" by simp
    from body_loop_stop [OF ne _ this, of m2 rs] s Cons show ?thesis
      by (simp add: b1_def m2_def m1_def b0_def ac_simps)
  qed
qed

lemma readBody_plain_raw:
  assumes "mfa_lastLine mfa = None"
    and "mfa_mfp mfa = bl @ ls @ rest"
    and "list_all maf_isBlankLine bl"
    and "list_all block_line ls" and "ls \<noteq> []"
    and "rest = [] \<or> maf_isBlankLine (hd rest)"
  shows "\<exists>b mfa'. maf_readBlockBody mfa = Inr (b, mfa') \<and> raw_lines b = ls \<and>
           mfa_mfp mfa' = tl rest \<and> mfa_lastLine mfa' = None \<and>
           mb_lineNumber b = mfa_lineNumber mfa"
proof -
  from assms(4) have "list_all parses ls"
    by (simp add: block_line_def list_all_iff)
  then show ?thesis
    unfolding readBody_plain [OF assms]
    using assms(1) by (simp add: raw_lines_def maf_newMafBlock_def records_raw)
qed

lemma readBody_empty:
  assumes "mfa_lastLine mfa = None" and "list_all maf_isBlankLine (mfa_mfp mfa)"
  shows "maf_readBlockBody mfa =
     Inr (maf_newMafBlock\<lparr>mb_lineNumber := mfa_lineNumber mfa\<rparr>,
          mfa\<lparr>mfa_lineNumber := mfa_lineNumber mfa + of_nat (length (mfa_mfp mfa)),
               mfa_mfp := []\<rparr>)"
proof -
  define b0 where "b0 = maf_newMafBlock\<lparr>mb_lineNumber := mfa_lineNumber mfa\<rparr>"
  have e: "mb_lines b0 = []" by (simp add: b0_def maf_newMafBlock_def)
  have "maf_readBlockBody mfa = body_loop b0 mfa"
    using assms(1) by (simp add: readBody_plain_eq b0_def)
  also have "\<dots> = body_loop b0 (mfa\<lparr>mfa_lineNumber := mfa_lineNumber mfa + of_nat (length (mfa_mfp mfa)),
               mfa_mfp := []\<rparr>)"
    by (rule body_loop_skip [OF assms(2) e]) simp
  also have "\<dots> = Inr (b0, mfa\<lparr>mfa_lineNumber := mfa_lineNumber mfa + of_nat (length (mfa_mfp mfa)),
               mfa_mfp := []\<rparr>)"
    by (rule body_loop_eof) simp
  finally show ?thesis by (simp add: b0_def)
qed

lemma readBody_lookahead:
  assumes "mfa_lastLine mfa = Some a" and "parses a"
    and "mfa_mfp mfa = ls @ rest"
    and "list_all block_line ls"
    and "rest = [] \<or> maf_isBlankLine (hd rest)"
  shows "maf_readBlockBody mfa =
     Inr (foldl block_add (maf_newMafBlock\<lparr>mb_lineNumber := mfa_lineNumber mfa\<rparr>)
            (projr (maf_newMafLineFromString a (mfa_lineNumber mfa))
               # records (mfa_lineNumber mfa) ls),
          mfa\<lparr>mfa_lineNumber :=
                 mfa_lineNumber mfa + of_nat (length ls + (if rest = [] then 0 else 1)),
               mfa_mfp := tl rest, mfa_lastLine := None\<rparr>)"
proof -
  define ml where "ml = projr (maf_newMafLineFromString a (mfa_lineNumber mfa))"
  define b0 where "b0 = block_add (maf_newMafBlock\<lparr>mb_lineNumber := mfa_lineNumber mfa\<rparr>) ml"
  define m0 where "m0 = mfa\<lparr>mfa_lastLine := None\<rparr>"
  define b1 where "b1 = foldl block_add b0 (records (mfa_lineNumber m0) ls)"
  define m2 where "m2 = m0\<lparr>mfa_lineNumber := mfa_lineNumber m0 + of_nat (length ls),
                       mfa_mfp := rest\<rparr>"
  have pl: "maf_newMafLineFromString a (mfa_lineNumber mfa) = Inr ml"
    unfolding ml_def by (rule parses_projr [OF assms(2)])
  have "maf_readBlockBody mfa = body_loop b0 m0"
    using assms(1) pl
    by (simp add: maf_readBlockBody_def body_lastLine_def b0_def m0_def block_add_def
        maf_newMafBlock_def)
  also have "\<dots> = body_loop b1 m2"
    unfolding b1_def m2_def by (rule body_loop_run [OF assms(4)]) (simp add: m0_def assms(3))
  finally have s: "maf_readBlockBody mfa = body_loop b1 m2" .
  have ne: "mb_lines b1 \<noteq> []"
    by (simp add: b1_def b0_def block_add_def)
  show ?thesis
  proof (cases rest)
    case Nil
    then have "mfa_mfp m2 = []" by (simp add: m2_def)
    from body_loop_eof [OF this, of b1] s Nil show ?thesis
      by (simp add: b1_def m2_def m0_def b0_def ml_def)
  next
    case (Cons r rs)
    with assms(5) have "maf_isBlankLine r" by simp
    from body_loop_stop [OF ne _ this, of m2 rs] s Cons show ?thesis
      by (simp add: b1_def m2_def m0_def b0_def ml_def ac_simps)
  qed
qed

subsection \<open>The strand of a sequence line\<close>

lemma s_line_not_blank: "char0 s = CHR ''s'' \<Longrightarrow> \<not> maf_isBlankLine s"
  by (cases s) (auto simp add: char0_def NUL_def isspace_def)

lemma body_loop_bad:
  assumes "list_all block_line ls" and "\<not> maf_isBlankLine s"
    and "mfa_mfp mfa = ls @ s # rest"
    and "maf_newMafLineFromString s (mfa_lineNumber mfa + of_nat (length ls) + 1) = Inl e"
  shows "body_loop b mfa = Inl e"
proof -
  define b1 where "b1 = foldl block_add b (records (mfa_lineNumber mfa) ls)"
  define m1 where
    "m1 = mfa\<lparr>mfa_lineNumber := mfa_lineNumber mfa + of_nat (length ls), mfa_mfp := s # rest\<rparr>"
  have "body_loop b mfa = body_loop b1 m1"
    unfolding b1_def m1_def by (rule body_loop_run [OF assms(1,3)])
  also have "\<dots> = Inl e"
    using assms(2,4) by (subst body_loop.simps) (simp add: de_getline_def m1_def)
  finally show ?thesis .
qed

text \<open>
  C5 (as amended). The parser looks at the first character of the strand field only. An
  \<open>s\<close> line is parsed only when its strand field (token 4, counted from 0) starts with \<open>+\<close> or
  \<open>-\<close>, and the strand stored is that character; when the field starts with any other
  character the parse is the fatal malformed-line error carrying the line number the parser
  was given. A body read gives the parser the number of the line in the file: after the block
  lines \<open>ls\<close> the error carries the session's counter plus \<open>length ls + 1\<close>.
\<close>

theorem strand_first_character:
  assumes "char0 s = CHR ''s''"
  shows "(\<forall>ml. maf_newMafLineFromString s n = Inr ml \<longrightarrow>
            (\<exists>t. field 4 s = Some t \<and> (char0 t = CHR ''+'' \<or> char0 t = CHR ''-'')
                 \<and> ml_strand ml = char0 t)) \<and>
         (\<forall>t. field 4 s = Some t \<and> char0 t \<noteq> CHR ''+'' \<and> char0 t \<noteq> CHR ''-'' \<longrightarrow>
            maf_newMafLineFromString s n = Inl (BadFormat n (strand_error (char0 t)))) \<and>
         (\<forall>t b mfa ls rest.
            field 4 s = Some t \<and> char0 t \<noteq> CHR ''+'' \<and> char0 t \<noteq> CHR ''-'' \<and>
            mfa_mfp mfa = ls @ s # rest \<and> list_all block_line ls \<longrightarrow>
            body_loop b mfa =
              Inl (BadFormat (mfa_lineNumber mfa + of_nat (length ls) + 1)
                     (strand_error (char0 t))))"
proof -
  have p: "maf_newMafLineFromString s k = Inl (BadFormat k (strand_error (char0 t)))"
    if "field 4 s = Some t" "char0 t \<noteq> CHR ''+''" "char0 t \<noteq> CHR ''-''" for t k
    using assms that
    by (auto simp add: field4 maf_newMafLineFromString_def maf_failBadFormat_def Let_def
        split: option.splits if_splits)
  have q: "\<exists>t. field 4 s = Some t \<and> (char0 t = CHR ''+'' \<or> char0 t = CHR ''-'')
                 \<and> ml_strand ml = char0 t"
    if "maf_newMafLineFromString s n = Inr ml" for ml
    using assms that
    by (auto simp add: field4 maf_newMafLineFromString_def maf_failBadFormat_def Let_def
        split: option.splits if_splits)
  have r: "body_loop b mfa =
              Inl (BadFormat (mfa_lineNumber mfa + of_nat (length ls) + 1)
                     (strand_error (char0 t)))"
    if "field 4 s = Some t" "char0 t \<noteq> CHR ''+''" "char0 t \<noteq> CHR ''-''"
      "mfa_mfp mfa = ls @ s # rest" "list_all block_line ls"
    for t and b :: mafBlock and mfa :: mafFileApi and ls rest
    using body_loop_bad [OF that(5) s_line_not_blank [OF assms] that(4) p [OF that(1-3)]] .
  from p q r show ?thesis by blast
qed

theorem strand_first_character_witness:
  "char0 ''s hg18.chr1 10 5 x 100 AC-GT'' = CHR ''s'' \<and>
   field 4 ''s hg18.chr1 10 5 x 100 AC-GT'' = Some ''x'' \<and>
   maf_newMafLineFromString ''s hg18.chr1 10 5 x 100 AC-GT'' 7
     = Inl (BadFormat 7 ''Strand must be either + or -, not x.'') \<and>
   maf_readAll (maf_newMfa ''x.maf''
      [''##maf version=1'', '''', ''a score=1'', ''s hg18.chr1 10 5 x 100 AC-GT''])
     = Inl (BadFormat 4 ''Strand must be either + or -, not x.'') \<and>
   field 4 ''s hg18.chr1 10 5 - 100 AC-GT'' = Some ''-'' \<and>
   ml_strand (projr (maf_newMafLineFromString ''s hg18.chr1 10 5 - 100 AC-GT'' 3)) = CHR ''-''"
proof -
  let ?s = "''s hg18.chr1 10 5 x 100 AC-GT''"
  let ?m = "(maf_newMfa ''x.maf'' [''a score=1'', ?s])\<lparr>mfa_lineNumber := 2\<rparr>"
  have c: "char0 ?s = CHR ''s''" by (simp add: char0_def)
  have f: "field 4 ?s = Some ''x''" by (simp add: field4 parse_eval)
  note T = strand_first_character [OF c]
  from T [of 7] f have 1: "maf_newMafLineFromString ?s 7
     = Inl (BadFormat 7 ''Strand must be either + or -, not x.'')"
    by (simp add: strand_error_def char0_def)
  have "body_loop (maf_newMafBlock\<lparr>mb_lineNumber := 2\<rparr>) ?m =
              Inl (BadFormat (mfa_lineNumber ?m + of_nat (length [''a score=1'']) + 1)
                     (strand_error (char0 ''x'')))"
    using T [of 0] f
    by (elim conjE allE [of _ "''x''"] allE [of _ "maf_newMafBlock\<lparr>mb_lineNumber := 2\<rparr>"]
          allE [of _ ?m] allE [of _ "[''a score=1'']"] allE [of _ "[]"])
       (simp add: maf_newMfa_def line_eval)
  then have 2: "maf_readAll (maf_newMfa ''x.maf''
      [''##maf version=1'', '''', ''a score=1'', ?s])
     = Inl (BadFormat 4 ''Strand must be either + or -, not x.'')"
    by (simp add: read_eval parse_eval)
  from strand_first_character [of "''s hg18.chr1 10 5 - 100 AC-GT''" 3]
  have 3: "field 4 ''s hg18.chr1 10 5 - 100 AC-GT'' = Some ''-'' \<and>
   ml_strand (projr (maf_newMafLineFromString ''s hg18.chr1 10 5 - 100 AC-GT'' 3)) = CHR ''-''"
    by (simp add: field4 parse_eval)
  from c f 1 2 3 show ?thesis by simp
qed

text \<open>
  The strand field \<open>+x\<close> is not the one-character token \<open>+\<close>, and the line is parsed, with
  strand \<open>+\<close>.
\<close>

theorem strand_exact_token_counterexample:
  "field 4 ''s hg18.chr1 10 5 +x 100 AC-GT'' = Some ''+x'' \<and>
   maf_newMafLineFromString ''s hg18.chr1 10 5 +x 100 AC-GT'' 7 =
     Inr \<lparr>ml_line = ''s hg18.chr1 10 5 +x 100 AC-GT'', ml_lineNumber = 7, ml_type = CHR ''s'',
          ml_species = Some ''hg18.chr1'', ml_start = 10, ml_length = 5,
          ml_strand = CHR ''+'', ml_sourceLength = 100, ml_sequence = Some ''AC-GT''\<rparr>"
  by (simp add: field4 parse_eval)

subsection \<open>Blank lines and the end of the stream\<close>

text \<open>
  C3. In the loop of a body read a blank line ends the block when the block holds a line,
  and is skipped while the block is empty. Hence, for two runs \<open>ls1\<close> and \<open>ls2\<close> of block
  lines separated by one or more blank lines, two consecutive body reads return the blocks
  of \<open>ls1\<close> and of \<open>ls2\<close>: the run of blank lines is one block boundary, and no empty block
  is returned between them.
\<close>

theorem blank_line_collapsing:
  assumes "mfa_lastLine mfa = None"
    and "mfa_mfp mfa = ls1 @ blanks @ ls2 @ rest"
    and "list_all block_line ls1" and "ls1 \<noteq> []"
    and "list_all maf_isBlankLine blanks" and "blanks \<noteq> []"
    and "list_all block_line ls2" and "ls2 \<noteq> []"
    and "rest = [] \<or> maf_isBlankLine (hd rest)"
  shows "(\<forall>b m l f. mb_lines b \<noteq> [] \<and> mfa_mfp m = l # f \<and> maf_isBlankLine l \<longrightarrow>
            body_loop b m =
              Inr (b, m\<lparr>mfa_lineNumber := mfa_lineNumber m + 1, mfa_mfp := f\<rparr>)) \<and>
         (\<forall>b m l f. mb_lines b = [] \<and> mfa_mfp m = l # f \<and> maf_isBlankLine l \<longrightarrow>
            body_loop b m =
              body_loop b (m\<lparr>mfa_lineNumber := mfa_lineNumber m + 1, mfa_mfp := f\<rparr>)) \<and>
         (\<exists>b1 mfa1 b2 mfa2.
           maf_readBlockBody mfa = Inr (b1, mfa1) \<and> raw_lines b1 = ls1 \<and>
           mfa_mfp mfa1 = tl blanks @ ls2 @ rest \<and>
           maf_readBlockBody mfa1 = Inr (b2, mfa2) \<and> raw_lines b2 = ls2 \<and>
           mfa_mfp mfa2 = tl rest)"
proof (intro conjI allI impI)
  fix b :: mafBlock and m :: mafFileApi and l f
  assume "mb_lines b \<noteq> [] \<and> mfa_mfp m = l # f \<and> maf_isBlankLine l"
  then show "body_loop b m = Inr (b, m\<lparr>mfa_lineNumber := mfa_lineNumber m + 1, mfa_mfp := f\<rparr>)"
    by (simp add: body_loop_stop)
next
  fix b :: mafBlock and m :: mafFileApi and l f
  assume "mb_lines b = [] \<and> mfa_mfp m = l # f \<and> maf_isBlankLine l"
  with body_loop_skip [of "[l]" b m f]
  show "body_loop b m = body_loop b (m\<lparr>mfa_lineNumber := mfa_lineNumber m + 1, mfa_mfp := f\<rparr>)"
    by simp
next
  have h: "blanks @ ls2 @ rest = [] \<or> maf_isBlankLine (hd (blanks @ ls2 @ rest))"
    using assms(5,6) by (cases blanks) simp_all
  from readBody_plain_raw [of mfa "[]" ls1 "blanks @ ls2 @ rest"] assms(1-4) h
  obtain b1 mfa1 where 1: "maf_readBlockBody mfa = Inr (b1, mfa1)" "raw_lines b1 = ls1"
    "mfa_mfp mfa1 = tl (blanks @ ls2 @ rest)" "mfa_lastLine mfa1 = None"
    by auto
  from 1(3) assms(6) have m: "mfa_mfp mfa1 = tl blanks @ ls2 @ rest" by simp
  from assms(5) have "list_all maf_isBlankLine (tl blanks)"
    by (cases blanks) simp_all
  from readBody_plain_raw [OF 1(4) m this assms(7,8,9)]
  obtain b2 mfa2 where "maf_readBlockBody mfa1 = Inr (b2, mfa2)" "raw_lines b2 = ls2"
    "mfa_mfp mfa2 = tl rest"
    by auto
  with 1 m show "\<exists>b1 mfa1 b2 mfa2.
           maf_readBlockBody mfa = Inr (b1, mfa1) \<and> raw_lines b1 = ls1 \<and>
           mfa_mfp mfa1 = tl blanks @ ls2 @ rest \<and>
           maf_readBlockBody mfa1 = Inr (b2, mfa2) \<and> raw_lines b2 = ls2 \<and>
           mfa_mfp mfa2 = tl rest" by blast
qed

theorem blank_line_collapsing_witness:
  "(\<exists>b1 mfa1 b2 mfa2.
     maf_readBlockBody
       ((maf_newMfa ''x.maf''
          [''a score=1'', ''s hg18.chr1 10 5 + 100 ACGTA'', '''', ''  '', '''',
           ''a score=2'', ''s mm9.chr2 0 3 - 50 A-CG'', '''', ''a score=3''])
        \<lparr>mfa_lineNumber := 2\<rparr>) = Inr (b1, mfa1) \<and>
     raw_lines b1 = [''a score=1'', ''s hg18.chr1 10 5 + 100 ACGTA''] \<and>
     mfa_mfp mfa1 = [''  '', '''', ''a score=2'', ''s mm9.chr2 0 3 - 50 A-CG'', '''', ''a score=3''] \<and>
     maf_readBlockBody mfa1 = Inr (b2, mfa2) \<and>
     raw_lines b2 = [''a score=2'', ''s mm9.chr2 0 3 - 50 A-CG''] \<and>
     mfa_mfp mfa2 = [''a score=3'']) \<and>
   body_loop example_block ((maf_newMfa ''x.maf'' ['' '', ''a score=2''])\<lparr>mfa_lineNumber := 6\<rparr>)
     = Inr (example_block, (maf_newMfa ''x.maf'' [''a score=2''])\<lparr>mfa_lineNumber := 7\<rparr>) \<and>
   body_loop maf_newMafBlock ((maf_newMfa ''x.maf'' ['' '', ''a score=2''])\<lparr>mfa_lineNumber := 6\<rparr>)
     = body_loop maf_newMafBlock ((maf_newMfa ''x.maf'' [''a score=2''])\<lparr>mfa_lineNumber := 7\<rparr>)"
proof -
  let ?M = "(maf_newMfa ''x.maf''
          [''a score=1'', ''s hg18.chr1 10 5 + 100 ACGTA'', '''', ''  '', '''',
           ''a score=2'', ''s mm9.chr2 0 3 - 50 A-CG'', '''', ''a score=3''])
        \<lparr>mfa_lineNumber := 2\<rparr>"
  let ?N = "(maf_newMfa ''x.maf'' ['' '', ''a score=2''])\<lparr>mfa_lineNumber := 6\<rparr>"
  have h1: "mfa_lastLine ?M = None" by (simp add: maf_newMfa_def)
  have h2: "mfa_mfp ?M = [''a score=1'', ''s hg18.chr1 10 5 + 100 ACGTA''] @ ['''', ''  '', '''']
              @ [''a score=2'', ''s mm9.chr2 0 3 - 50 A-CG''] @ ['''', ''a score=3'']"
    by (simp add: maf_newMfa_def)
  have h3: "list_all block_line [''a score=1'', ''s hg18.chr1 10 5 + 100 ACGTA'']"
    by (simp add: line_eval)
  have h5: "list_all maf_isBlankLine ['''', ''  '', '''']" by (simp add: isspace_def)
  have h7: "list_all block_line [''a score=2'', ''s mm9.chr2 0 3 - 50 A-CG'']"
    by (simp add: line_eval)
  have h9: "['''', ''a score=3''] = [] \<or> maf_isBlankLine (hd ['''', ''a score=3''])" by simp
  note T = blank_line_collapsing [OF h1 h2 h3 _ h5 _ h7 _ h9, simplified]
  from T have stop: "body_loop example_block ?N
     = Inr (example_block, ?N\<lparr>mfa_lineNumber := mfa_lineNumber ?N + 1, mfa_mfp := [''a score=2'']\<rparr>)"
    by (elim conjE allE [of _ example_block] allE [of _ ?N] allE [of _ "'' ''"]
          allE [of _ "[''a score=2'']"])
       (simp add: maf_newMfa_def example_block_eq isspace_def)
  from T have skip: "body_loop maf_newMafBlock ?N
     = body_loop maf_newMafBlock
         (?N\<lparr>mfa_lineNumber := mfa_lineNumber ?N + 1, mfa_mfp := [''a score=2'']\<rparr>)"
    by (elim conjE allE [of _ maf_newMafBlock] allE [of _ ?N] allE [of _ "'' ''"]
          allE [of _ "[''a score=2'']"])
       (simp add: maf_newMfa_def maf_newMafBlock_def isspace_def)
  from T stop skip show ?thesis by (simp add: maf_newMfa_def)
qed

text \<open>
  C4. A body read (no line buffered) of a stream that holds nothing but blank lines returns an
  empty block, and \<open>maf_readBlock\<close> then returns \<open>NULL\<close>: no more blocks, and not an error.
  When the stream ends after the block lines \<open>ls\<close>, with no blank line behind them, the block
  of \<open>ls\<close> is returned.
\<close>

theorem end_of_stream:
  assumes "mfa_lastLine mfa = None" and "mfa_lineNumber mfa \<noteq> 0"
    and "mfa_mfp mfa = bl @ ls"
    and "list_all maf_isBlankLine bl" and "list_all block_line ls"
  shows "\<exists>b mfa'. maf_readBlockBody mfa = Inr (b, mfa') \<and> raw_lines b = ls \<and>
           mfa_mfp mfa' = [] \<and>
           maf_readBlock mfa = Inr (if ls = [] then None else Some b, mfa')"
proof (cases "ls = []")
  case True
  with assms(3,4) have "list_all maf_isBlankLine (mfa_mfp mfa)" by simp
  from readBody_empty [OF assms(1) this] True assms(2) show ?thesis
    by (simp add: maf_readBlock_def raw_lines_def maf_newMafBlock_def)
next
  case False
  from readBody_plain_raw [of mfa bl ls "[]"] assms False
  obtain b mfa' where r: "maf_readBlockBody mfa = Inr (b, mfa')" "raw_lines b = ls"
    "mfa_mfp mfa' = []" by auto
  with False assms(2) have "maf_readBlock mfa = Inr (Some b, mfa')"
    by (auto simp add: maf_readBlock_def raw_lines_def)
  with r False show ?thesis by simp
qed

theorem end_of_stream_witness:
  "(\<exists>mfa'. maf_readBlock ((maf_newMfa ''x.maf'' ['''', ''  ''])\<lparr>mfa_lineNumber := 9\<rparr>)
             = Inr (None, mfa')) \<and>
   (\<exists>b mfa'. maf_readBlock
              ((maf_newMfa ''x.maf'' ['''', ''a score=1'', ''s hg18.chr1 10 5 + 100 ACGTA''])
               \<lparr>mfa_lineNumber := 9\<rparr>) = Inr (Some b, mfa') \<and>
            raw_lines b = [''a score=1'', ''s hg18.chr1 10 5 + 100 ACGTA''] \<and>
            mfa_mfp mfa' = [])"
  using end_of_stream
      [of "(maf_newMfa ''x.maf'' ['''', ''  ''])\<lparr>mfa_lineNumber := 9\<rparr>" "['''', ''  '']" "[]"]
    end_of_stream
      [of "(maf_newMfa ''x.maf'' ['''', ''a score=1'', ''s hg18.chr1 10 5 + 100 ACGTA''])
             \<lparr>mfa_lineNumber := 9\<rparr>"
          "['''']" "[''a score=1'', ''s hg18.chr1 10 5 + 100 ACGTA'']"]
  by (simp add: maf_newMfa_def line_eval) blast

subsection \<open>The header loop\<close>

lemma header_records_raw [simp]: "map ml_line (header_records n ls) = ls"
  by (induction ls arbitrary: n) (simp_all add: header_line_def)

lemma header_records_length [simp]: "length (header_records n ls) = length ls"
  by (induction ls arbitrary: n) simp_all

lemma header_advance_Cons:
  "mfa_mfp mfa = l # f \<Longrightarrow>
     header_advance header mfa =
       Inr (l, header\<lparr>mb_lineNumber := mfa_lineNumber mfa + 1,
                     mb_numberOfLines := mb_numberOfLines header + 1\<rparr>,
            mfa\<lparr>mfa_lineNumber := mfa_lineNumber mfa + 1, mfa_mfp := f\<rparr>)"
  by (simp add: header_advance_def de_getline_def maf_checkForPrematureMafEnd_def Let_def)

lemma header_advance_eq:
  "header_advance header mfa =
     (case mfa_mfp mfa of
        [] \<Rightarrow> Inl PrematureEnd
      | l # f \<Rightarrow>
          Inr (l, header\<lparr>mb_lineNumber := mfa_lineNumber mfa + 1,
                        mb_numberOfLines := mb_numberOfLines header + 1\<rparr>,
               mfa\<lparr>mfa_lineNumber := mfa_lineNumber mfa + 1, mfa_mfp := f\<rparr>))"
  by (simp add: header_advance_def de_getline_def maf_checkForPrematureMafEnd_def Let_def
      split: list.splits)

lemma header_loop_run:
  "list_all header_ok ks \<Longrightarrow> \<not> header_ok t \<Longrightarrow> line # mfa_mfp mfa = ks @ t # rest \<Longrightarrow>
     header_loop line header mfa =
       Inr (t,
            header\<lparr>mb_lines := mb_lines header @ header_records (mfa_lineNumber mfa) ks,
                   mb_lineNumber :=
                     (if ks = [] then mb_lineNumber header
                      else mfa_lineNumber mfa + of_nat (length ks)),
                   mb_numberOfLines := mb_numberOfLines header + of_nat (length ks)\<rparr>,
            mfa\<lparr>mfa_lineNumber := mfa_lineNumber mfa + of_nat (length ks), mfa_mfp := rest\<rparr>)"
proof (induction ks arbitrary: line header mfa)
  case Nil
  then have "line = t" "mfa_mfp mfa = rest" by simp_all
  with Nil.prems(2) show ?case
    by (auto simp add: header_loop.simps [of t header mfa] header_ok_def)
next
  case (Cons k ks)
  from Cons.prems have lk: "line = k" and ok: "header_ok k"
    and f: "mfa_mfp mfa = ks @ t # rest" by simp_all
  obtain l' f' where lf: "ks @ t # rest = l' # f'" by (cases "ks @ t # rest") simp_all
  define h1 where
    "h1 = header\<lparr>mb_lines := mb_lines header @ [header_line k (mfa_lineNumber mfa)],
                 mb_lineNumber := mfa_lineNumber mfa + 1,
                 mb_numberOfLines := mb_numberOfLines header + 1\<rparr>"
  define m1 where "m1 = mfa\<lparr>mfa_lineNumber := mfa_lineNumber mfa + 1, mfa_mfp := f'\<rparr>"
  have "header_loop line header mfa = header_loop l' h1 m1"
    using ok f lf
    by (simp add: header_loop.simps [of k header mfa] lk header_ok_def
        header_advance_Cons [of mfa l' f'] h1_def m1_def)
  also have "\<dots> = Inr (t,
            h1\<lparr>mb_lines := mb_lines h1 @ header_records (mfa_lineNumber m1) ks,
                   mb_lineNumber :=
                     (if ks = [] then mb_lineNumber h1
                      else mfa_lineNumber m1 + of_nat (length ks)),
                   mb_numberOfLines := mb_numberOfLines h1 + of_nat (length ks)\<rparr>,
            m1\<lparr>mfa_lineNumber := mfa_lineNumber m1 + of_nat (length ks), mfa_mfp := rest\<rparr>)"
    using Cons.prems(1,2) lf by (intro Cons.IH) (simp_all add: m1_def)
  finally show ?case
    by (simp add: h1_def m1_def ac_simps)
qed

lemma maf_prefix_header_ok: "strncmp_eq l ''##maf'' \<Longrightarrow> header_ok l"
  by (cases l) (auto simp add: strncmp_eq_def header_ok_def char0_def isspace_def)

lemma track_prefix_header_ok: "strncmp_eq l ''track'' \<Longrightarrow> header_ok l"
  by (cases l) (auto simp add: strncmp_eq_def header_ok_def char0_def isspace_def)

lemma readHeader_run:
  assumes v: "strncmp_eq h0 ''track'' \<or> strncmp_eq h0 ''##maf''"
    and hs: "list_all header_ok hs" and t: "\<not> header_ok t"
    and f: "mfa_mfp mfa = h0 # hs @ t # rest"
  shows "maf_readBlockHeader mfa =
     Inr (header_block (mfa_lineNumber mfa) (h0 # hs),
          if char0 t = CHR ''a''
          then mfa\<lparr>mfa_lineNumber := mfa_lineNumber mfa + of_nat (length hs + 2),
                   mfa_mfp := rest, mfa_lastLine := Some t\<rparr>
          else mfa\<lparr>mfa_lineNumber := mfa_lineNumber mfa + of_nat (length hs + 2),
                   mfa_mfp := rest\<rparr>)"
proof -
  define n where "n = mfa_lineNumber mfa"
  define m1 where "m1 = mfa\<lparr>mfa_lineNumber := n + 1, mfa_mfp := hs @ t # rest\<rparr>"
  obtain l1 f1 where lf: "hs @ t # rest = l1 # f1" by (cases "hs @ t # rest") simp_all
  define hA where
    "hA = maf_newMafBlock\<lparr>mb_lines := [header_line h0 (n + 1)], mb_lineNumber := n + 2,
                          mb_numberOfLines := 1\<rparr>"
  define mA where "mA = mfa\<lparr>mfa_lineNumber := n + 2, mfa_mfp := f1\<rparr>"
  define res where
    "res = (Inr (t, (header_block n (h0 # hs)),
                mfa\<lparr>mfa_lineNumber := n + of_nat (length hs + 2), mfa_mfp := rest\<rparr>)
            :: error + (string \<times> mafBlock \<times> mafFileApi))"
  have adv1: "header_advance (maf_newMafBlock\<lparr>mb_lines := [header_line h0 (n + 1)]\<rparr>) m1
                = Inr (l1, hA, mA)"
    using lf by (simp add: header_advance_eq m1_def hA_def mA_def
        maf_newMafBlock_def)
  have loopA: "header_loop l1 hA mA = res"
  proof -
    have "l1 # mfa_mfp mA = hs @ t # rest" by (simp add: mA_def lf)
    from header_loop_run [OF hs t this, of hA] show ?thesis
      by (simp add: res_def header_block_def hA_def mA_def maf_newMafBlock_def ac_simps)
  qed
  have tail: "(case header_maf True l1 hA mA of Inl e \<Rightarrow> Inl e
               | Inr (validHeader, line2, header2, mfa2) \<Rightarrow>
                   if \<not> validHeader then Inl (NoValidHeader (mfa_filename mfa))
                   else header_loop line2 header2 mfa2) = res"
  proof (cases "strncmp_eq l1 ''##maf''")
    case False
    then show ?thesis by (simp add: header_maf_def loopA)
  next
    case True
    then have "header_ok l1" by (rule maf_prefix_header_ok)
    with t lf obtain hs' where hs': "hs = l1 # hs'" by (cases hs) auto
    with lf have f1: "f1 = hs' @ t # rest" by simp
    obtain l2 f2 where lf2: "hs' @ t # rest = l2 # f2" by (cases "hs' @ t # rest") simp_all
    define hB where
      "hB = maf_newMafBlock\<lparr>mb_lines := [header_line h0 (n + 1), header_line l1 (n + 2)],
                            mb_lineNumber := n + 3, mb_numberOfLines := 2\<rparr>"
    define mB where "mB = mfa\<lparr>mfa_lineNumber := n + 3, mfa_mfp := f2\<rparr>"
    have adv2: "header_advance
                  (hA\<lparr>mb_lines := [header_line h0 (n + 1), header_line l1 (n + 2)]\<rparr>) mA
                = Inr (l2, hB, mB)"
      using lf2 f1 by (simp add: header_advance_eq hA_def mA_def hB_def mB_def
          maf_newMafBlock_def)
    have "l2 # mfa_mfp mB = hs' @ t # rest" by (simp add: mB_def lf2)
    from header_loop_run [OF _ t this, of hB] hs hs'
    have "header_loop l2 hB mB = res"
      by (simp add: res_def header_block_def hB_def mB_def maf_newMafBlock_def ac_simps)
    with True adv2 show ?thesis
      by (simp add: header_maf_def hA_def mA_def Let_def)
  qed
  have main: "(case header_track h0 maf_newMafBlock m1 of Inl e \<Rightarrow> Inl e
      | Inr (valid1, line1, header1, mfa1) \<Rightarrow>
      (case header_maf valid1 line1 header1 mfa1 of Inl e \<Rightarrow> Inl e
      | Inr (validHeader, line2, header2, mfa2) \<Rightarrow>
          if \<not> validHeader then Inl (NoValidHeader (mfa_filename mfa))
          else header_loop line2 header2 mfa2)) = res"
  proof (cases "strncmp_eq h0 ''track''")
    case True
    with adv1 tail show ?thesis
      by (simp add: header_track_def m1_def)
  next
    case False
    with v have mf: "strncmp_eq h0 ''##maf''" by simp
    from False mf adv1 loopA show ?thesis
      by (simp add: header_track_def header_maf_def m1_def Let_def maf_newMafBlock_def)
  qed
  have "maf_readBlockHeader mfa =
      (case res of Inl e \<Rightarrow> Inl e
       | Inr (line3, header3, mfa3) \<Rightarrow>
          Inr (header3,
               if char0 line3 = CHR ''a'' then mfa3\<lparr>mfa_lastLine := Some line3\<rparr>
               else mfa3))"
    unfolding main [symmetric]
    by (simp add: maf_readBlockHeader_def de_getline_def maf_checkForPrematureMafEnd_def f
        Let_def m1_def n_def split: sum.splits)
  then show ?thesis by (simp add: res_def n_def)
qed

lemma parse_non_s:
  "char0 s \<noteq> CHR ''s'' \<Longrightarrow>
     maf_newMafLineFromString s n =
       Inr \<lparr>ml_line = s, ml_lineNumber = n, ml_type = char0 s, ml_species = None,
            ml_start = 0, ml_length = 0, ml_strand = NUL, ml_sourceLength = 0,
            ml_sequence = None\<rparr>"
  by (simp add: maf_newMafLineFromString_def)

lemma header_block_raw [simp]: "raw_lines (header_block n hs) = hs"
  by (simp add: raw_lines_def header_block_def)

lemma header_loop_prefix:
  "header_loop line header mfa = Inr (l', h', m') \<Longrightarrow>
     \<exists>xs. map ml_line (mb_lines h') = map ml_line (mb_lines header) @ xs \<and>
          (header_ok line \<longrightarrow> xs \<noteq> [] \<and> hd xs = line)"
proof (induction line header mfa rule: header_loop.induct)
  case (1 line header mfa)
  show ?case
  proof (cases "char0 line \<noteq> CHR ''a'' \<and> \<not> maf_isBlankLine line")
    case True
    define h1 where
      "h1 = header\<lparr>mb_lines := mb_lines header @ [header_line line (mfa_lineNumber mfa)]\<rparr>"
    from "1.prems" True obtain l2 h2 mfa2 where
      a: "header_advance h1 mfa = Inr (l2, h2, mfa2)"
      and r: "header_loop l2 h2 mfa2 = Inr (l', h', m')"
      by (auto simp add: header_loop.simps [of line header mfa] h1_def split: sum.splits)
    from a have h2: "mb_lines h2 = mb_lines h1"
      by (auto simp add: header_advance_eq split: list.splits)
    from "1.IH" [OF True, folded h1_def, OF a refl refl r] obtain xs where
      "map ml_line (mb_lines h') = map ml_line (mb_lines h2) @ xs" by blast
    with h2 have "map ml_line (mb_lines h') = map ml_line (mb_lines header) @ (line # xs)"
      by (simp add: h1_def header_line_def)
    then show ?thesis by (intro exI [of _ "line # xs"]) simp
  next
    case False
    with "1.prems" show ?thesis
      by (auto simp add: header_loop.simps [of line header mfa] header_ok_def)
  qed
qed

lemma track_second_accepted:
  assumes t: "strncmp_eq t ''track''"
    and f: "mfa_mfp mfa = t # l # f" and ok: "header_ok l"
    and r: "maf_readBlockHeader mfa = Inr (h, mfa')"
  shows "take 2 (raw_lines h) = [t, l]"
proof -
  define n where "n = mfa_lineNumber mfa"
  define hA where
    "hA = maf_newMafBlock\<lparr>mb_lines := [header_line t (n + 1)], mb_lineNumber := n + 1 + 1,
                          mb_numberOfLines := 1\<rparr>"
  define mA where "mA = mfa\<lparr>mfa_lineNumber := n + 1 + 1, mfa_mfp := f\<rparr>"
  have tr: "header_track t maf_newMafBlock (mfa\<lparr>mfa_lineNumber := n + 1, mfa_mfp := l # f\<rparr>)
              = Inr (True, l, hA, mA)"
    using t by (simp add: header_track_def header_advance_eq hA_def mA_def maf_newMafBlock_def)
  from r obtain v2 l2 h2 m2 l3 m3 where
    m: "header_maf True l hA mA = Inr (v2, l2, h2, m2)"
    and lp: "header_loop l2 h2 m2 = Inr (l3, h, m3)"
    by (auto simp add: maf_readBlockHeader_def de_getline_def maf_checkForPrematureMafEnd_def
        Let_def f tr n_def [symmetric] split: sum.splits if_splits)
  show ?thesis
  proof (cases "strncmp_eq l ''##maf''")
    case True
    with m have "map ml_line (mb_lines h2) = [t, l]"
      by (auto simp add: header_maf_def Let_def header_advance_eq hA_def header_line_def
          split: list.splits sum.splits)
    moreover from header_loop_prefix [OF lp] obtain xs where
      "map ml_line (mb_lines h) = map ml_line (mb_lines h2) @ xs" by blast
    ultimately show ?thesis
      by (simp add: raw_lines_def)
  next
    case False
    with m have "l2 = l" "map ml_line (mb_lines h2) = [t]"
      by (auto simp add: header_maf_def hA_def header_line_def)
    from header_loop_prefix [OF lp] obtain xs where
      x: "map ml_line (mb_lines h) = map ml_line (mb_lines h2) @ xs"
      "header_ok l2 \<longrightarrow> xs \<noteq> [] \<and> hd xs = l2" by blast
    from x(2) ok \<open>l2 = l\<close> have "xs \<noteq> []" "hd xs = l" by simp_all
    with x(1) \<open>map ml_line (mb_lines h2) = [t]\<close> show ?thesis
      by (cases xs) (simp_all add: raw_lines_def)
  qed
qed

subsection \<open>The header and the first block\<close>

text \<open>
  C2. A header whose first line starts with \<open>track\<close> or \<open>##maf\<close>, continued by header lines
  \<open>hs\<close> and ended by a line \<open>a\<close> that starts with the character \<open>a\<close>: the header read returns
  the header lines without \<open>a\<close> and leaves \<open>a\<close> in \<open>lastLine\<close>, with the stream standing
  after it; the next body read returns a block whose first record is the record of \<open>a\<close>, with
  the number of that line, followed by the records of the lines read from the stream.
\<close>

theorem header_lookahead:
  assumes "strncmp_eq h0 ''track'' \<or> strncmp_eq h0 ''##maf''"
    and "list_all header_ok hs"
    and "char0 a = CHR ''a''"
    and "mfa_mfp mfa = h0 # hs @ a # ls @ rest"
    and "list_all block_line ls"
    and "rest = [] \<or> maf_isBlankLine (hd rest)"
  shows "\<exists>h mfa1 b mfa2 mls.
           maf_readBlockHeader mfa = Inr (h, mfa1) \<and> raw_lines h = h0 # hs \<and>
           a \<notin> set (raw_lines h) \<and>
           mfa_lastLine mfa1 = Some a \<and> mfa_mfp mfa1 = ls @ rest \<and>
           maf_readBlockBody mfa1 = Inr (b, mfa2) \<and>
           mb_lines b =
             \<lparr>ml_line = a, ml_lineNumber = mfa_lineNumber mfa + of_nat (length hs + 2),
              ml_type = CHR ''a'', ml_species = None, ml_start = 0, ml_length = 0,
              ml_strand = NUL, ml_sourceLength = 0, ml_sequence = None\<rparr> # mls \<and>
           map ml_line mls = ls \<and> mfa_lastLine mfa2 = None \<and> mfa_mfp mfa2 = tl rest"
proof -
  define mfa1 where
    "mfa1 = mfa\<lparr>mfa_lineNumber := mfa_lineNumber mfa + of_nat (length hs + 2),
                 mfa_mfp := ls @ rest, mfa_lastLine := Some a\<rparr>"
  have na: "\<not> header_ok a" using assms(3) by (simp add: header_ok_def)
  have hd: "maf_readBlockHeader mfa = Inr (header_block (mfa_lineNumber mfa) (h0 # hs), mfa1)"
    using readHeader_run [OF assms(1,2) na assms(4)] assms(3) by (simp add: mfa1_def)
  have h0: "header_ok h0"
    using assms(1) maf_prefix_header_ok track_prefix_header_ok by blast
  have notin: "a \<notin> set (h0 # hs)"
    using h0 assms(2,3) by (auto simp add: header_ok_def list_all_iff)
  have as: "char0 a \<noteq> CHR ''s''" using assms(3) by simp
  have pa: "parses a"
    by (simp add: parses_def parse_non_s [OF as])
  have ps: "list_all parses ls"
    using assms(5) by (simp add: block_line_def list_all_iff)
  have l1: "mfa_lastLine mfa1 = Some a" and f1: "mfa_mfp mfa1 = ls @ rest"
    by (simp_all add: mfa1_def)
  note bd = readBody_lookahead [OF l1 pa f1 assms(5,6)]
  show ?thesis
    apply (rule exI [of _ "header_block (mfa_lineNumber mfa) (h0 # hs)"])
    apply (rule exI [of _ mfa1])
    apply (simp only: hd bd)
    using notin ps assms(3)
    apply (simp add: parse_non_s [OF as] maf_newMafBlock_def records_raw block_add_def)
    apply (simp add: mfa1_def)
    done
qed

theorem header_lookahead_witness:
  "\<exists>h mfa1 b mfa2.
     maf_readBlockHeader
       (maf_newMfa ''x.maf''
          [''##maf version=1'', ''# a comment'', ''a score=1'',
           ''s hg18.chr1 10 5 + 100 ACGTA'', '''', ''a score=2'']) = Inr (h, mfa1) \<and>
     raw_lines h = [''##maf version=1'', ''# a comment''] \<and>
     mfa_lastLine mfa1 = Some ''a score=1'' \<and>
     mfa_mfp mfa1 = [''s hg18.chr1 10 5 + 100 ACGTA'', '''', ''a score=2''] \<and>
     maf_readBlockBody mfa1 = Inr (b, mfa2) \<and>
     raw_lines b = [''a score=1'', ''s hg18.chr1 10 5 + 100 ACGTA''] \<and>
     ml_lineNumber (hd (mb_lines b)) = 3 \<and> ml_type (hd (mb_lines b)) = CHR ''a'' \<and>
     mfa_lastLine mfa2 = None \<and> mfa_mfp mfa2 = [''a score=2'']"
proof -
  from header_lookahead
    [of "''##maf version=1''" "[''# a comment'']" "''a score=1''"
        "maf_newMfa ''x.maf''
          [''##maf version=1'', ''# a comment'', ''a score=1'',
           ''s hg18.chr1 10 5 + 100 ACGTA'', '''', ''a score=2'']"
        "[''s hg18.chr1 10 5 + 100 ACGTA'']" "['''', ''a score=2'']"]
  obtain h mfa1 b mfa2 mls where
    "maf_readBlockHeader
       (maf_newMfa ''x.maf''
          [''##maf version=1'', ''# a comment'', ''a score=1'',
           ''s hg18.chr1 10 5 + 100 ACGTA'', '''', ''a score=2'']) = Inr (h, mfa1)"
    "raw_lines h = [''##maf version=1'', ''# a comment'']"
    "mfa_lastLine mfa1 = Some ''a score=1''"
    "mfa_mfp mfa1 = [''s hg18.chr1 10 5 + 100 ACGTA'', '''', ''a score=2'']"
    "maf_readBlockBody mfa1 = Inr (b, mfa2)"
    "mb_lines b =
       \<lparr>ml_line = ''a score=1'', ml_lineNumber = 3,
        ml_type = CHR ''a'', ml_species = None, ml_start = 0, ml_length = 0,
        ml_strand = NUL, ml_sourceLength = 0, ml_sequence = None\<rparr> # mls"
    "map ml_line mls = [''s hg18.chr1 10 5 + 100 ACGTA'']"
    "mfa_lastLine mfa2 = None" "mfa_mfp mfa2 = [''a score=2'']"
    by (auto simp add: maf_newMfa_def line_eval)
  then show ?thesis
    by (intro exI [of _ h] exI [of _ mfa1] exI [of _ b] exI [of _ mfa2])
       (simp add: raw_lines_def)
qed

text \<open>
  C7 (as amended). After a first line that starts with \<open>track\<close> the header read reads one
  more line, and stops with the premature-end error when there is none. That second line is
  header content exactly when it is not blank and does not start with \<open>a\<close>: a second line
  starting with \<open>a\<close> ends the header and is buffered in \<open>lastLine\<close>, a blank second line ends
  the header and is dropped.
\<close>

theorem track_second_line:
  assumes "strncmp_eq t ''track''"
  shows "(mfa_mfp mfa = [t] \<longrightarrow> maf_readBlockHeader mfa = Inl PrematureEnd) \<and>
     (\<forall>l f. mfa_mfp mfa = t # l # f \<and> char0 l = CHR ''a'' \<longrightarrow>
         maf_readBlockHeader mfa =
           Inr (header_block (mfa_lineNumber mfa) [t],
                mfa\<lparr>mfa_lineNumber := mfa_lineNumber mfa + 2, mfa_mfp := f,
                     mfa_lastLine := Some l\<rparr>)) \<and>
     (\<forall>l f. mfa_mfp mfa = t # l # f \<and> maf_isBlankLine l \<longrightarrow>
         maf_readBlockHeader mfa =
           Inr (header_block (mfa_lineNumber mfa) [t],
                mfa\<lparr>mfa_lineNumber := mfa_lineNumber mfa + 2, mfa_mfp := f\<rparr>)) \<and>
     (\<forall>l f h mfa'. mfa_mfp mfa = t # l # f \<and> header_ok l \<and>
         maf_readBlockHeader mfa = Inr (h, mfa') \<longrightarrow> take 2 (raw_lines h) = [t, l])"
proof (intro conjI allI impI)
  assume "mfa_mfp mfa = [t]"
  with assms show "maf_readBlockHeader mfa = Inl PrematureEnd"
    by (simp add: maf_readBlockHeader_def de_getline_def maf_checkForPrematureMafEnd_def
        Let_def header_track_def header_advance_eq)
next
  fix l f assume a: "mfa_mfp mfa = t # l # f \<and> char0 l = CHR ''a''"
  then have "\<not> header_ok l" by (simp add: header_ok_def)
  from readHeader_run [of t "[]" l mfa f, OF _ _ this] assms a
  show "maf_readBlockHeader mfa =
           Inr (header_block (mfa_lineNumber mfa) [t],
                mfa\<lparr>mfa_lineNumber := mfa_lineNumber mfa + 2, mfa_mfp := f,
                     mfa_lastLine := Some l\<rparr>)"
    by simp
next
  fix l f assume a: "mfa_mfp mfa = t # l # f \<and> maf_isBlankLine l"
  then have n: "\<not> header_ok l" by (simp add: header_ok_def)
  from a have "char0 l \<noteq> CHR ''a''"
    by (cases l) (auto simp add: char0_def NUL_def isspace_def split: if_splits)
  with readHeader_run [of t "[]" l mfa f, OF _ _ n] assms a
  show "maf_readBlockHeader mfa =
           Inr (header_block (mfa_lineNumber mfa) [t],
                mfa\<lparr>mfa_lineNumber := mfa_lineNumber mfa + 2, mfa_mfp := f\<rparr>)"
    by simp
next
  fix l f h mfa'
  assume "mfa_mfp mfa = t # l # f \<and> header_ok l \<and> maf_readBlockHeader mfa = Inr (h, mfa')"
  with track_second_accepted [OF assms, of mfa l f h mfa']
  show "take 2 (raw_lines h) = [t, l]" by simp
qed

theorem track_second_line_witness:
  "strncmp_eq ''track name=x'' ''track'' \<and>
   (\<exists>h m. maf_readBlockHeader
            (maf_newMfa ''x.maf'' [''track name=x'', ''##maf version=1'', '''']) = Inr (h, m) \<and>
          take 2 (raw_lines h) = [''track name=x'', ''##maf version=1'']) \<and>
   maf_readBlockHeader (maf_newMfa ''x.maf'' [''track name=x'', '' '', ''a score=1''])
     = Inr (header_block 0 [''track name=x''],
            (maf_newMfa ''x.maf'' [''a score=1''])\<lparr>mfa_lineNumber := 2\<rparr>) \<and>
   maf_readBlockHeader (maf_newMfa ''x.maf'' [''track name=x'']) = Inl PrematureEnd"
  using track_second_line [of "''track name=x''"
      "maf_newMfa ''x.maf'' [''track name=x'', ''##maf version=1'', '''']"]
    track_second_line [of "''track name=x''"
      "maf_newMfa ''x.maf'' [''track name=x'', '' '', ''a score=1'']"]
    track_second_line [of "''track name=x''" "maf_newMfa ''x.maf'' [''track name=x'']"]
    readHeader_run [of "''track name=x''" "[''##maf version=1'']" "''''"
      "maf_newMfa ''x.maf'' [''track name=x'', ''##maf version=1'', '''']" "[]"]
  by (simp add: maf_newMfa_def line_eval)

text \<open>
  The second line \<open>a score=1\<close> follows a \<open>track\<close> line and is not header content: the header
  block holds the \<open>track\<close> line alone, and the second line is buffered for the body read.
\<close>

theorem track_second_line_counterexample:
  "maf_readBlockHeader (maf_newMfa ''x.maf'' [''track name=x'', ''a score=1'', ''''])
     = Inr (header_block 0 [''track name=x''],
            (maf_newMfa ''x.maf'' [''''])
              \<lparr>mfa_lineNumber := 2, mfa_lastLine := Some ''a score=1''\<rparr>) \<and>
   raw_lines (header_block 0 [''track name=x'']) = [''track name=x'']"
  using readHeader_run [of "''track name=x''" "[]" "''a score=1''"
      "maf_newMfa ''x.maf'' [''track name=x'', ''a score=1'', '''']" "['''']"]
  by (simp add: maf_newMfa_def line_eval)

subsection \<open>The array builders\<close>

lemma array_loop_fill:
  "i + length (filter (\<lambda>ml. ml_type ml = CHR ''s'') mls) \<le> length a \<Longrightarrow>
     array_loop g mls i a =
       Inr (i + length (filter (\<lambda>ml. ml_type ml = CHR ''s'') mls),
            take i a @ map (\<lambda>ml. Some (g ml)) (filter (\<lambda>ml. ml_type ml = CHR ''s'') mls)
              @ drop (i + length (filter (\<lambda>ml. ml_type ml = CHR ''s'') mls)) a)"
proof (induction mls arbitrary: i a)
  case Nil
  then show ?case by simp
next
  case (Cons ml mls)
  show ?case
  proof (cases "ml_type ml = CHR ''s''")
    case True
    with Cons.prems have i: "i < length a" by simp
    from Cons.prems True
    have "Suc i + length (filter (\<lambda>ml. ml_type ml = CHR ''s'') mls)
            \<le> length (a[i := Some (g ml)])" by simp
    from Cons.IH [OF this] True i show ?thesis
      by (simp add: take_Suc_conv_app_nth)
  next
    case False
    with Cons.prems Cons.IH [of i a] show ?thesis by simp
  qed
qed

text \<open>
  C10. The strand array and the array of sequence lines are \<open>NULL\<close> exactly when the block's
  \<open>numberOfSequences\<close> is zero. Otherwise, for a block whose \<open>numberOfSequences\<close> counts its
  sequence lines (and is not the largest \<open>uint32_t\<close>, so that \<open>numberOfSequences + 1\<close> bytes are
  allocated), the strand array holds the strand characters of the sequence lines in their
  order, followed by NUL, and the line array holds the sequence lines in their order.
\<close>

theorem zero_sequence_views:
  "(maf_mafBlock_getStrandArray mb = Inr None \<longleftrightarrow> mb_numberOfSequences mb = 0) \<and>
   (maf_mafBlock_getMafLineArray_seqOnly mb = Inr None \<longleftrightarrow> mb_numberOfSequences mb = 0) \<and>
   (unat (mb_numberOfSequences mb) = length (seq_lines mb) \<and>
    mb_numberOfSequences mb \<noteq> 0 \<and> mb_numberOfSequences mb + 1 \<noteq> 0 \<longrightarrow>
      maf_mafBlock_getStrandArray mb
        = Inr (Some (map Some (map ml_strand (seq_lines mb) @ [NUL])))) \<and>
   (unat (mb_numberOfSequences mb) = length (seq_lines mb) \<and>
    mb_numberOfSequences mb \<noteq> 0 \<longrightarrow>
      maf_mafBlock_getMafLineArray_seqOnly mb = Inr (Some (map Some (seq_lines mb))))"
proof (intro conjI impI)
  show "maf_mafBlock_getStrandArray mb = Inr None \<longleftrightarrow> mb_numberOfSequences mb = 0"
    by (auto simp add: maf_mafBlock_getStrandArray_def split: sum.splits prod.splits)
  show "maf_mafBlock_getMafLineArray_seqOnly mb = Inr None \<longleftrightarrow> mb_numberOfSequences mb = 0"
    by (auto simp add: maf_mafBlock_getMafLineArray_seqOnly_def split: sum.splits prod.splits)
next
  assume a: "unat (mb_numberOfSequences mb) = length (seq_lines mb) \<and>
    mb_numberOfSequences mb \<noteq> 0 \<and> mb_numberOfSequences mb + 1 \<noteq> 0"
  define k where "k = length (seq_lines mb)"
  from a have u: "unat (mb_numberOfSequences mb + 1) = Suc k"
    using unatSuc [of "mb_numberOfSequences mb"] by (simp add: k_def add.commute)
  have "0 + length (filter (\<lambda>ml. ml_type ml = CHR ''s'') (mb_lines mb))
          \<le> length (replicate (Suc k) (None :: char option))"
    by (simp add: k_def seq_lines_def)
  moreover have "drop k (None # replicate k None) = [None :: char option]"
    using drop_replicate [of k "Suc k" "None :: char option"] by simp
  ultimately show "maf_mafBlock_getStrandArray mb
        = Inr (Some (map Some (map ml_strand (seq_lines mb) @ [NUL])))"
    using array_loop_fill [of 0 "mb_lines mb" "replicate (Suc k) None" ml_strand] a u
    by (simp add: maf_mafBlock_getStrandArray_def seq_lines_def [symmetric] k_def [symmetric]
        list_update_append)
next
  assume a: "unat (mb_numberOfSequences mb) = length (seq_lines mb) \<and>
    mb_numberOfSequences mb \<noteq> 0"
  have "0 + length (filter (\<lambda>ml. ml_type ml = CHR ''s'') (mb_lines mb))
          \<le> length (replicate (length (seq_lines mb)) (None :: mafLine option))"
    by (simp add: seq_lines_def)
  from array_loop_fill [OF this, of "\<lambda>ml. ml"] a
  show "maf_mafBlock_getMafLineArray_seqOnly mb = Inr (Some (map Some (seq_lines mb)))"
    by (simp add: maf_mafBlock_getMafLineArray_seqOnly_def seq_lines_def [symmetric])
qed

theorem zero_sequence_views_witness:
  "maf_mafBlock_getStrandArray example_block
     = Inr (Some [Some CHR ''+'', Some CHR ''-'', Some NUL]) \<and>
   map_sum id (map_option (map (map_option ml_line)))
       (maf_mafBlock_getMafLineArray_seqOnly example_block)
     = Inr (Some [Some ''s hg18.chr1 10 5 + 100 ACGTA'', Some ''s mm9.chr2 0 4 - 50 A-CGT'']) \<and>
   maf_mafBlock_getStrandArray maf_newMafBlock = Inr None \<and>
   maf_mafBlock_getMafLineArray_seqOnly maf_newMafBlock = Inr None"
  using zero_sequence_views [of example_block] zero_sequence_views [of maf_newMafBlock]
  by (simp add: example_block_eq seq_lines_def maf_newMafBlock_def)

subsection \<open>The sequence matrix\<close>

lemma skip_to_seq_Inr:
  "skip_to_seq mls = Inr r \<Longrightarrow>
     \<exists>pre s rest. mls = pre @ s # rest \<and> r = s # rest \<and> ml_type s = CHR ''s'' \<and>
       filter (\<lambda>ml. ml_type ml = CHR ''s'') pre = []"
proof (induction mls)
  case Nil
  then show ?case by simp
next
  case (Cons ml mls)
  show ?case
  proof (cases "ml_type ml = CHR ''s''")
    case True
    with Cons.prems have "r = ml # mls" by simp
    with True show ?thesis by (intro exI [of _ "[]"] exI [of _ ml] exI [of _ mls]) simp
  next
    case False
    with Cons.prems have "skip_to_seq mls = Inr r" by simp
    from Cons.IH [OF this] obtain pre s rest where
      "mls = pre @ s # rest" "r = s # rest" "ml_type s = CHR ''s''"
      "filter (\<lambda>ml. ml_type ml = CHR ''s'') pre = []" by blast
    with False show ?thesis
      by (intro exI [of _ "ml # pre"] exI [of _ s] exI [of _ rest]) simp
  qed
qed

lemma skip_to_seq_Inl:
  "skip_to_seq mls = Inl e \<Longrightarrow> filter (\<lambda>ml. ml_type ml = CHR ''s'') mls = []"
  by (induction mls) (auto split: if_splits)

lemma matrix_loop_rows:
  assumes "mls = [] \<or> ml_type (last mls) = CHR ''s''"
    and "i + length (filter (\<lambda>ml. ml_type ml = CHR ''s'') mls) \<le> length matrix"
    and "\<forall>ml \<in> set mls. ml_type ml = CHR ''s'' \<longrightarrow> ml_sequence ml \<noteq> None"
    and "unat m < unat (m + 1)"
  shows "matrix_loop mls i matrix m =
     Inr (take i matrix @ map (matrix_row m) (filter (\<lambda>ml. ml_type ml = CHR ''s'') mls)
          @ drop (i + length (filter (\<lambda>ml. ml_type ml = CHR ''s'') mls)) matrix)"
  using assms(1-3)
proof (induction "length mls" arbitrary: mls i matrix rule: less_induct)
  case less
  show ?case
  proof (cases mls)
    case Nil
    then show ?thesis by simp
  next
    case (Cons ml mls')
    with less.prems(1) have "ml_type (last mls) = CHR ''s''" by simp
    moreover from Cons have "last mls \<in> set mls" by simp
    ultimately have ne: "filter (\<lambda>ml. ml_type ml = CHR ''s'') mls \<noteq> []"
      by (auto simp add: filter_empty_conv)
    obtain r where r: "skip_to_seq mls = Inr r"
      using ne skip_to_seq_Inl by (cases "skip_to_seq mls") auto
    from skip_to_seq_Inr [OF r] obtain pre s rest where
      d: "mls = pre @ s # rest" "r = s # rest" "ml_type s = CHR ''s''"
      "filter (\<lambda>ml. ml_type ml = CHR ''s'') pre = []" by blast
    from d less.prems(3) obtain sq where sq: "ml_sequence s = Some sq" by auto
    from d less.prems(2) have i: "i < length matrix" by simp
    define matrix' where "matrix' = matrix[i := Some (strncpy sq (unat m) @ [NUL])]"
    have step: "matrix_loop mls i matrix m = matrix_loop rest (i + 1) matrix' m"
      using r d(2) i assms(4) sq unfolding Cons matrix'_def by simp
    have l: "length rest < length mls" using d(1) by simp
    have 1: "rest = [] \<or> ml_type (last rest) = CHR ''s''"
      using less.prems(1) d(1) by (cases "rest = []") simp_all
    have 2: "(i + 1) + length (filter (\<lambda>ml. ml_type ml = CHR ''s'') rest) \<le> length matrix'"
      using less.prems(2) d by (simp add: matrix'_def)
    have 3: "\<forall>ml \<in> set rest. ml_type ml = CHR ''s'' \<longrightarrow> ml_sequence ml \<noteq> None"
      using less.prems(3) d(1) by simp
    have f: "filter (\<lambda>ml. ml_type ml = CHR ''s'') mls
               = s # filter (\<lambda>ml. ml_type ml = CHR ''s'') rest"
      using d by simp
    from less.hyps [OF l 1 2 3] step i sq show ?thesis
      by (simp add: f matrix'_def matrix_row_def take_Suc_conv_app_nth)
  qed
qed

lemma sequence_matrix_rows:
  assumes "mb_lines mb = [] \<or> ml_type (last (mb_lines mb)) = CHR ''s''"
    and "unat n = length (seq_lines mb)"
    and "\<forall>ml \<in> set (mb_lines mb). ml_type ml = CHR ''s'' \<longrightarrow> ml_sequence ml \<noteq> None"
    and "m + 1 \<noteq> 0"
  shows "maf_mafBlock_getSequenceMatrix mb n m = Inr (map (matrix_row m) (seq_lines mb))"
proof -
  have "unat m < unat (m + 1)"
    using unatSuc [of m] assms(4) by (simp add: add.commute)
  from matrix_loop_rows [OF assms(1) _ assms(3) this, of 0 "replicate (unat n) None"] assms(2)
  show ?thesis
    by (simp add: maf_mafBlock_getSequenceMatrix_def seq_lines_def)
qed

text \<open>
  C8. The sequence matrix of the example block, whose \<open>numberOfSequences\<close> is the number of its
  two sequence lines and whose last line is an \<open>i\<close> line, built with \<open>n = 2\<close> rows: after the
  second row the inner loop walks over the \<open>i\<close> line to the end of the list and reads the type
  of the \<open>NULL\<close> line. (\<open>sequence_matrix_rows\<close> above is the case of a block that ends with a
  sequence line, where row \<open>i\<close> is the sequence of the \<open>i\<close>-th sequence line, cut or padded.)
\<close>

theorem sequence_matrix_trailing_line:
  "mb_numberOfSequences example_block = 2 \<and> length (seq_lines example_block) = 2 \<and>
   maf_mafBlock_getSequenceMatrix example_block 2 5 = Inl NullDereference"
proof -
  have u: "unat (2 :: u32) = Suc (Suc 0)" by simp
  have "maf_mafBlock_getSequenceMatrix example_block 2 5
          = matrix_loop (mb_lines example_block) 0 [None, None] 5"
    unfolding maf_mafBlock_getSequenceMatrix_def u by simp
  then show ?thesis
    by (simp add: example_block_eq seq_lines_def strncpy_def)
qed

subsection \<open>The line number of a block\<close>

text \<open>
  C9. The \<open>lineNumber\<close> of each block of a five-line file, with the numbers of the block's
  lines. The header block is the line 1 and has \<open>lineNumber\<close> 2, the number of the blank line
  that ended the header; the alignment block is the lines 3 and 4 and has \<open>lineNumber\<close> 2, the
  session's counter when its read began.
\<close>

theorem block_lineNumber_evaluated:
  "map_sum id (\<lambda>(bs, m). map (\<lambda>b. (mb_lineNumber b, map ml_lineNumber (mb_lines b))) bs)
     (maf_readAll (maf_newMfa ''x.maf''
        [''##maf version=1'', '''', ''a score=1'', ''s hg18.chr1 10 5 + 100 ACGTA'', '''']))
   = Inr [(2, [1]), (2, [3, 4])]"
  by (simp add: read_eval parse_eval)

subsection \<open>Reading a file and writing it back\<close>

lemma advanced_refl: "advanced mfa mfa 0"
  by (simp add: advanced_def)

lemma advanced_trans:
  "advanced m1 m2 j \<Longrightarrow> advanced m2 m3 k \<Longrightarrow> advanced m1 m3 (j + k)"
  by (simp add: advanced_def ac_simps)

lemma advanced_step:
  "mfa_mfp mfa = l # f \<Longrightarrow>
     advanced mfa (mfa\<lparr>mfa_lineNumber := mfa_lineNumber mfa + 1, mfa_mfp := f\<rparr>) 1"
  by (simp add: advanced_def)

lemma body_loop_content:
  "body_loop b mfa = Inr (b', mfa') \<Longrightarrow>
     raw_lines b' @ filter (\<lambda>l. \<not> maf_isBlankLine l) (mfa_mfp mfa')
       = raw_lines b @ filter (\<lambda>l. \<not> maf_isBlankLine l) (mfa_mfp mfa) \<and>
     (mb_lines b' = [] \<longrightarrow> mfa_mfp mfa' = []) \<and>
     (\<exists>k. advanced mfa mfa' k)"
proof (induction b mfa rule: body_loop.induct)
  case (1 thisBlock mfa)
  show ?case
  proof (cases "mfa_mfp mfa")
    case Nil
    with "1.prems" have "b' = thisBlock" "mfa' = mfa"
      by (simp_all add: body_loop.simps [of thisBlock mfa] de_getline_def)
    with Nil advanced_refl [of mfa] show ?thesis by auto
  next
    case (Cons line f)
    define mfa1 where "mfa1 = mfa\<lparr>mfa_lineNumber := mfa_lineNumber mfa + 1, mfa_mfp := f\<rparr>"
    have g: "de_getline (mfa_mfp mfa) = Some (line, f)"
      by (simp add: Cons de_getline_def)
    have a1: "advanced mfa mfa1 1"
      unfolding mfa1_def by (rule advanced_step [OF Cons])
    have f1: "mfa_mfp mfa1 = f" by (simp add: mfa1_def)
    show ?thesis
    proof (cases "maf_isBlankLine line")
      case True
      show ?thesis
      proof (cases "mb_lines thisBlock = []")
        case e: True
        from "1.prems" have r: "body_loop thisBlock mfa1 = Inr (b', mfa')"
          by (simp add: body_loop.simps [of thisBlock mfa] g True e mfa1_def)
        from "1.IH"(1) [OF g refl, folded mfa1_def, OF refl True e r] obtain k where
          c: "raw_lines b' @ filter (\<lambda>l. \<not> maf_isBlankLine l) (mfa_mfp mfa')
                = raw_lines thisBlock @ filter (\<lambda>l. \<not> maf_isBlankLine l) (mfa_mfp mfa1)"
          "mb_lines b' = [] \<longrightarrow> mfa_mfp mfa' = []" "advanced mfa1 mfa' k" by blast
        from advanced_trans [OF a1 c(3)] c(1,2) True show ?thesis
          by (auto simp add: Cons f1)
      next
        case False
        with "1.prems" True have "b' = thisBlock" "mfa' = mfa1"
          by (simp_all add: body_loop.simps [of thisBlock mfa] g mfa1_def)
        with a1 False True show ?thesis by (auto simp add: Cons f1)
      qed
    next
      case False
      from "1.prems" False obtain ml where
        p: "maf_newMafLineFromString line (mfa_lineNumber mfa1) = Inr ml"
        and r: "body_loop (block_add thisBlock ml) mfa1 = Inr (b', mfa')"
        by (auto simp add: body_loop.simps [of thisBlock mfa] g mfa1_def split: sum.splits)
      from "1.IH"(2) [OF g refl, folded mfa1_def, OF refl False p r] obtain k where
        c: "raw_lines b' @ filter (\<lambda>l. \<not> maf_isBlankLine l) (mfa_mfp mfa')
              = raw_lines (block_add thisBlock ml)
                  @ filter (\<lambda>l. \<not> maf_isBlankLine l) (mfa_mfp mfa1)"
        "mb_lines b' = [] \<longrightarrow> mfa_mfp mfa' = []" "advanced mfa1 mfa' k" by blast
      from parse_fields [OF p] have "raw_lines (block_add thisBlock ml) = raw_lines thisBlock @ [line]"
        by (simp add: raw_lines_def block_add_def)
      with advanced_trans [OF a1 c(3)] c(1,2) False show ?thesis
        by (auto simp add: Cons f1)
    qed
  qed
qed

lemma readBody_content:
  assumes "maf_readBlockBody mfa = Inr (b, mfa')"
  shows "content mfa = raw_lines b @ content mfa'"
    and "mfa_lastLine mfa' = None"
    and "mb_lines b = [] \<Longrightarrow> mfa_mfp mfa' = []"
    and "\<exists>k. advanced mfa mfa' k"
proof -
  from assms obtain b0 m0 where
    l: "body_lastLine maf_newMafBlock mfa = Inr (b0, m0)"
    and r: "body_loop (b0\<lparr>mb_lineNumber := mfa_lineNumber m0\<rparr>) m0 = Inr (b, mfa')"
    by (auto simp add: maf_readBlockBody_def split: sum.splits)
  from l have m0: "mfa_lastLine m0 = None" "mfa_mfp m0 = mfa_mfp mfa"
    "mfa_lineNumber m0 = mfa_lineNumber mfa" "mfa_filename m0 = mfa_filename mfa"
    and b0: "raw_lines b0 = (case mfa_lastLine mfa of None \<Rightarrow> [] | Some l \<Rightarrow> [l])"
    by (auto simp add: body_lastLine_def maf_newMafBlock_def raw_lines_def
        split: option.splits sum.splits dest: parse_fields)
  from body_loop_progress [OF r] m0 show ll: "mfa_lastLine mfa' = None" by simp
  from body_loop_content [OF r] obtain k where
    c: "raw_lines b @ filter (\<lambda>l. \<not> maf_isBlankLine l) (mfa_mfp mfa')
          = raw_lines (b0\<lparr>mb_lineNumber := mfa_lineNumber m0\<rparr>)
             @ filter (\<lambda>l. \<not> maf_isBlankLine l) (mfa_mfp m0)"
    "mb_lines b = [] \<longrightarrow> mfa_mfp mfa' = []" "advanced m0 mfa' k" by blast
  from c(1) b0 m0 ll show "content mfa = raw_lines b @ content mfa'"
    by (simp add: content_def raw_lines_def)
  from c(2) show "mb_lines b = [] \<Longrightarrow> mfa_mfp mfa' = []" by simp
  from c(3) m0 have "advanced mfa mfa' k" by (simp add: advanced_def)
  then show "\<exists>k. advanced mfa mfa' k" ..
qed

lemma header_ok_not_blank: "header_ok l \<Longrightarrow> \<not> maf_isBlankLine l"
  by (simp add: header_ok_def)

lemma a_line_not_blank: "char0 l = CHR ''a'' \<Longrightarrow> \<not> maf_isBlankLine l"
  by (cases l) (auto simp add: char0_def NUL_def isspace_def)

lemma header_advance_content:
  assumes "header_advance header mfa = Inr (l', h', m')"
  shows "mfa_mfp mfa = l' # mfa_mfp m'" and "mb_lines h' = mb_lines header"
    and "advanced mfa m' 1" and "mfa_lastLine m' = mfa_lastLine mfa"
  using assms by (auto simp add: header_advance_eq advanced_def split: list.splits)

lemma header_advance_all:
  "header_advance header mfa = Inr (l', h', m') \<Longrightarrow>
     mfa_mfp mfa = l' # mfa_mfp m' \<and> mb_lines h' = mb_lines header \<and>
     advanced mfa m' 1 \<and> mfa_lastLine m' = mfa_lastLine mfa"
  by (auto simp add: header_advance_eq advanced_def split: list.splits)

lemma header_loop_content:
  "header_loop line header mfa = Inr (l', h', m') \<Longrightarrow>
     raw_lines h' @ filter (\<lambda>l. \<not> maf_isBlankLine l) (l' # mfa_mfp m')
       = raw_lines header @ filter (\<lambda>l. \<not> maf_isBlankLine l) (line # mfa_mfp mfa) \<and>
     \<not> header_ok l' \<and> (\<exists>k. advanced mfa m' k) \<and> mfa_lastLine m' = mfa_lastLine mfa \<and>
     (mb_lines header \<noteq> [] \<longrightarrow> mb_lines h' \<noteq> [])"
proof (induction line header mfa rule: header_loop.induct)
  case (1 line header mfa)
  show ?case
  proof (cases "char0 line \<noteq> CHR ''a'' \<and> \<not> maf_isBlankLine line")
    case True
    define h1 where
      "h1 = header\<lparr>mb_lines := mb_lines header @ [header_line line (mfa_lineNumber mfa)]\<rparr>"
    from "1.prems" True obtain l2 h2 mfa2 where
      a: "header_advance h1 mfa = Inr (l2, h2, mfa2)"
      and r: "header_loop l2 h2 mfa2 = Inr (l', h', m')"
      by (auto simp add: header_loop.simps [of line header mfa] h1_def split: sum.splits)
    note ac = header_advance_content [OF a]
    from "1.IH" [OF True, folded h1_def, OF a refl refl r] obtain k where
      c: "raw_lines h' @ filter (\<lambda>l. \<not> maf_isBlankLine l) (l' # mfa_mfp m')
            = raw_lines h2 @ filter (\<lambda>l. \<not> maf_isBlankLine l) (l2 # mfa_mfp mfa2)"
      "\<not> header_ok l'" "advanced mfa2 m' k" "mfa_lastLine m' = mfa_lastLine mfa2"
      "mb_lines h2 \<noteq> [] \<longrightarrow> mb_lines h' \<noteq> []" by blast
    have "raw_lines h2 = raw_lines header @ [line]"
      by (simp add: raw_lines_def ac(2) h1_def header_line_def)
    moreover have "mb_lines h2 \<noteq> []" by (simp add: ac(2) h1_def)
    ultimately show ?thesis
      using c True ac(1,4) advanced_trans [OF ac(3) c(3)] by auto
  next
    case False
    with "1.prems" have "l' = line" "h' = header" "m' = mfa"
      by (simp_all add: header_loop.simps [of line header mfa])
    with False advanced_refl [of mfa] show ?thesis by (auto simp add: header_ok_def)
  qed
qed

lemma header_track_content:
  assumes "header_track line header mfa = Inr (v, l', h', m')" and "mb_lines header = []"
  shows "raw_lines h' @ filter (\<lambda>l. \<not> maf_isBlankLine l) (l' # mfa_mfp m')
           = filter (\<lambda>l. \<not> maf_isBlankLine l) (line # mfa_mfp mfa)"
    and "length (mb_lines h') \<le> 1" and "v \<longrightarrow> mb_lines h' \<noteq> []"
    and "\<exists>k. advanced mfa m' k" and "mfa_lastLine m' = mfa_lastLine mfa"
proof -
  show "raw_lines h' @ filter (\<lambda>l. \<not> maf_isBlankLine l) (l' # mfa_mfp m')
           = filter (\<lambda>l. \<not> maf_isBlankLine l) (line # mfa_mfp mfa)"
    using assms
    by (auto simp add: header_track_def raw_lines_def header_line_def
        split: if_splits sum.splits
        dest!: header_advance_all track_prefix_header_ok header_ok_not_blank)
  show "length (mb_lines h') \<le> 1"
    using assms
    by (auto simp add: header_track_def split: if_splits sum.splits
        dest!: header_advance_all)
  show "v \<longrightarrow> mb_lines h' \<noteq> []"
    using assms
    by (auto simp add: header_track_def split: if_splits sum.splits
        dest!: header_advance_all)
  show "\<exists>k. advanced mfa m' k"
    using assms advanced_refl [of mfa]
    by (auto simp add: header_track_def split: if_splits sum.splits
        dest!: header_advance_all)
  show "mfa_lastLine m' = mfa_lastLine mfa"
    using assms
    by (auto simp add: header_track_def split: if_splits sum.splits
        dest!: header_advance_all)
qed

lemma header_maf_content:
  assumes "header_maf v line header mfa = Inr (v', l', h', m')"
    and "length (mb_lines header) \<le> 1" and "v \<longrightarrow> mb_lines header \<noteq> []"
  shows "raw_lines h' @ filter (\<lambda>l. \<not> maf_isBlankLine l) (l' # mfa_mfp m')
           = raw_lines header @ filter (\<lambda>l. \<not> maf_isBlankLine l) (line # mfa_mfp mfa)"
    and "v' \<longrightarrow> mb_lines h' \<noteq> []"
    and "\<exists>k. advanced mfa m' k" and "mfa_lastLine m' = mfa_lastLine mfa"
proof -
  have two: "\<And>x xs. length (x # xs) \<le> 1 \<Longrightarrow> xs = []" by simp
  show "raw_lines h' @ filter (\<lambda>l. \<not> maf_isBlankLine l) (l' # mfa_mfp m')
           = raw_lines header @ filter (\<lambda>l. \<not> maf_isBlankLine l) (line # mfa_mfp mfa)"
    using assms(1,2)
    by (auto simp add: header_maf_def Let_def raw_lines_def header_line_def
        split: if_splits sum.splits list.splits
        dest!: header_advance_all maf_prefix_header_ok header_ok_not_blank)
  show "v' \<longrightarrow> mb_lines h' \<noteq> []"
    using assms
    by (auto simp add: header_maf_def Let_def split: if_splits sum.splits list.splits
        dest!: header_advance_all)
  show "\<exists>k. advanced mfa m' k"
    using assms(1) advanced_refl [of mfa]
    by (auto simp add: header_maf_def Let_def split: if_splits sum.splits
        dest!: header_advance_all)
  show "mfa_lastLine m' = mfa_lastLine mfa"
    using assms(1)
    by (auto simp add: header_maf_def Let_def split: if_splits sum.splits
        dest!: header_advance_all)
qed

lemma readHeader_content:
  assumes r: "maf_readBlockHeader mfa = Inr (h, mfa')" and n: "mfa_lastLine mfa = None"
  shows "raw_lines h @ content mfa' = filter (\<lambda>l. \<not> maf_isBlankLine l) (mfa_mfp mfa)"
    and "mb_lines h \<noteq> []"
    and "\<exists>k. advanced mfa mfa' (Suc k)"
proof -
  define m0 where "m0 = mfa\<lparr>mfa_lineNumber := mfa_lineNumber mfa + 1, mfa_mfp := tl (mfa_mfp mfa)\<rparr>"
  from r obtain line f v1 l1 h1 m1 v2 l2 h2 m2 l3 m3 where
    g: "mfa_mfp mfa = line # f"
    and t: "header_track line maf_newMafBlock m0 = Inr (v1, l1, h1, m1)"
    and m: "header_maf v1 l1 h1 m1 = Inr (v2, l2, h2, m2)"
    and v: "v2"
    and l: "header_loop l2 h2 m2 = Inr (l3, h, m3)"
    and e: "mfa' = (if char0 l3 = CHR ''a'' then m3\<lparr>mfa_lastLine := Some l3\<rparr> else m3)"
    by (auto simp add: maf_readBlockHeader_def de_getline_def maf_checkForPrematureMafEnd_def
        Let_def m0_def split: list.splits sum.splits if_splits)
  have a0: "advanced mfa m0 1" "mfa_lastLine m0 = None" "mfa_mfp m0 = f"
    using g n by (simp_all add: m0_def advanced_def)
  have e0: "mb_lines maf_newMafBlock = []" by (simp add: maf_newMafBlock_def)
  note tc = header_track_content [OF t e0]
  note mc = header_maf_content [OF m tc(2,3)]
  from header_loop_content [OF l] obtain k3 where
    lc: "raw_lines h @ filter (\<lambda>l. \<not> maf_isBlankLine l) (l3 # mfa_mfp m3)
          = raw_lines h2 @ filter (\<lambda>l. \<not> maf_isBlankLine l) (l2 # mfa_mfp m2)"
    "\<not> header_ok l3" "advanced m2 m3 k3" "mfa_lastLine m3 = mfa_lastLine m2"
    "mb_lines h2 \<noteq> [] \<longrightarrow> mb_lines h \<noteq> []" by blast
  from mc(2) v lc(5) show "mb_lines h \<noteq> []" by simp
  from tc(4) mc(3) obtain k1 k2 where "advanced m0 m1 k1" "advanced m1 m2 k2" by blast
  from advanced_trans [OF advanced_trans [OF advanced_trans [OF a0(1) this(1)] this(2)] lc(3)]
  have "advanced mfa m3 (Suc (k1 + k2 + k3))" by simp
  with e have "advanced mfa mfa' (Suc (k1 + k2 + k3))" by (simp add: advanced_def)
  then show "\<exists>k. advanced mfa mfa' (Suc k)" ..
  have ll: "mfa_lastLine m3 = None" using lc(4) mc(4) tc(5) a0(2) by simp
  have "content mfa' = filter (\<lambda>l. \<not> maf_isBlankLine l) (l3 # mfa_mfp m3)"
  proof (cases "char0 l3 = CHR ''a''")
    case True
    with e a_line_not_blank [OF True] show ?thesis by (simp add: content_def)
  next
    case False
    with lc(2) have "maf_isBlankLine l3" by (simp add: header_ok_def)
    with False e ll show ?thesis by (simp add: content_def)
  qed
  with lc(1) mc(1) tc(1) a0(3) g
  show "raw_lines h @ content mfa' = filter (\<lambda>l. \<not> maf_isBlankLine l) (mfa_mfp mfa)"
    by (simp add: raw_lines_def)
qed

lemma unat_add_small:
  fixes n :: u32
  assumes "unat n + k < 2 ^ 32"
  shows "unat (n + of_nat k) = unat n + k"
proof -
  from assms have k: "k < 2 ^ 32" by simp
  then have "unat (of_nat k :: u32) = k"
    by (simp add: unat_of_nat)
  with assms show ?thesis
    using unat_add_lem [of n "of_nat k :: u32"] by simp
qed

lemma in_body_advanced:
  assumes "in_body mfa" and "advanced mfa mfa' k"
  shows "in_body mfa'"
proof -
  from assms have b: "unat (mfa_lineNumber mfa) + k + length (mfa_mfp mfa') < 2 ^ 32"
    and z: "mfa_lineNumber mfa \<noteq> 0"
    and n: "mfa_lineNumber mfa' = mfa_lineNumber mfa + of_nat k"
    by (simp_all add: in_body_def advanced_def)
  from b have "unat (mfa_lineNumber mfa) + k < 2 ^ 32" by simp
  from unat_add_small [OF this] n
  have u: "unat (mfa_lineNumber mfa') = unat (mfa_lineNumber mfa) + k" by simp
  from z have "0 < unat (mfa_lineNumber mfa)" by (simp add: unat_gt_0)
  with u have "0 < unat (mfa_lineNumber mfa')" by simp
  then have "mfa_lineNumber mfa' \<noteq> 0" by (simp add: unat_gt_0)
  with u b show ?thesis by (simp add: in_body_def)
qed

lemma in_body_start:
  assumes "mfa_lineNumber mfa = 0" and "length (mfa_mfp mfa) < 2 ^ 32"
    and "advanced mfa mfa' (Suc k)"
  shows "in_body mfa'"
proof -
  from assms have b: "Suc k + length (mfa_mfp mfa') < 2 ^ 32"
    and n: "mfa_lineNumber mfa' = of_nat (Suc k)"
    by (simp_all add: advanced_def)
  from b have "unat (0 :: u32) + Suc k < 2 ^ 32" by simp
  from unat_add_small [OF this] n have u: "unat (mfa_lineNumber mfa') = Suc k" by simp
  then have "0 < unat (mfa_lineNumber mfa')" by simp
  then have "mfa_lineNumber mfa' \<noteq> 0" by (simp add: unat_gt_0)
  with u b show ?thesis by (simp add: in_body_def)
qed

lemma readAll_loop_content:
  "readAll_loop mfa = Inr (bs, mfa') \<Longrightarrow> in_body mfa \<Longrightarrow>
     concat (map raw_lines bs) = content mfa \<and> list_all (\<lambda>b. raw_lines b \<noteq> []) bs"
proof (induction mfa arbitrary: bs mfa' rule: readAll_loop.induct)
  case (1 mfa)
  from "1.prems"(2) have nz: "mfa_lineNumber mfa \<noteq> 0" by (simp add: in_body_def)
  from "1.prems"(1) obtain r m1 where rb: "maf_readBlock mfa = Inr (r, m1)"
    by (auto simp add: readAll_loop.simps [of mfa] split: sum.splits)
  with nz obtain b where body: "maf_readBlockBody mfa = Inr (b, m1)"
    and r: "r = (if mb_lines b \<noteq> [] then Some b else None)"
    by (auto simp add: maf_readBlock_def split: sum.splits if_splits)
  note bc = readBody_content [OF body]
  show ?case
  proof (cases "mb_lines b = []")
    case True
    with rb r "1.prems"(1) have "bs = []"
      by (simp add: readAll_loop.simps [of mfa])
    moreover from bc(1,2) bc(3) [OF True] True have "content mfa = []"
      by (simp add: content_def raw_lines_def)
    ultimately show ?thesis by simp
  next
    case False
    with r have rs: "r = Some b" by simp
    with rb "1.prems"(1) obtain bs' where l: "readAll_loop m1 = Inr (bs', mfa')"
      and bs: "bs = b # bs'"
      by (auto simp add: readAll_loop.simps [of mfa] split: sum.splits)
    from bc(4) "1.prems"(2) have "in_body m1" using in_body_advanced by blast
    from "1.IH" [OF rb refl rs l this] bc(1) bs False show ?thesis
      by (simp add: raw_lines_def)
  qed
qed

lemma unlines_append: "unlines (xs @ ys) = unlines xs @ unlines ys"
  by (simp add: unlines_def)

lemma writeBlock_loop_out:
  "mfa_out (writeBlock_loop mfa mls) = mfa_out mfa @ unlines (map ml_line mls)"
  by (induction mls arbitrary: mfa) (simp_all add: unlines_def fprintf_def)

lemma maf_writeBlock_out:
  "mfa_out (maf_writeBlock mfa mb) = mfa_out mfa @ unlines (raw_lines mb @ [[]])"
  by (simp add: maf_writeBlock_def Let_def writeBlock_loop_out fprintf_def unlines_def
      raw_lines_def)

lemma writeAll_loop_out:
  "mfa_out (writeAll_loop mfa mbs)
     = mfa_out mfa @ unlines (concat (map (\<lambda>b. raw_lines b @ [[]]) mbs))"
  by (induction mbs arbitrary: mfa) (simp_all add: maf_writeBlock_out unlines_append unlines_def)

lemma maf_writeAll_out:
  "mfa_out (maf_writeAll mfa mbs)
     = mfa_out mfa @ unlines (concat (map (\<lambda>b. raw_lines b @ [[]]) mbs) @ [[]])"
  by (simp add: maf_writeAll_def Let_def writeAll_loop_out fprintf_def unlines_append)
     (simp add: unlines_def)

lemma dropWhile_head: "dropWhile P xs = x # ys \<Longrightarrow> \<not> P x"
  using hd_dropWhile [of P xs] by auto

lemma groups_dropWhile_blank: "groups (dropWhile maf_isBlankLine ls) = groups ls"
  by (induction ls) simp_all

lemma groups_drop1:
  "groups (drop (Suc 0) (dropWhile (\<lambda>x. \<not> maf_isBlankLine x) ls))
     = groups (dropWhile (\<lambda>x. \<not> maf_isBlankLine x) ls)"
proof -
  define d where "d = dropWhile (\<lambda>x. \<not> maf_isBlankLine x) ls"
  have "groups (drop (Suc 0) d) = groups d"
  proof (cases d)
    case Nil
    then show ?thesis by simp
  next
    case (Cons x xs)
    from dropWhile_head [of "\<lambda>x. \<not> maf_isBlankLine x" ls x xs] Cons
    have "maf_isBlankLine x" by (simp add: d_def)
    with Cons show ?thesis by simp
  qed
  then show ?thesis by (simp only: d_def)
qed

lemma body_loop_run_of:
  "body_loop b mfa = Inr (b', mfa') \<Longrightarrow>
     raw_lines b' = raw_lines b @ takeWhile (\<lambda>x. \<not> maf_isBlankLine x)
        (if mb_lines b = [] then dropWhile maf_isBlankLine (mfa_mfp mfa) else mfa_mfp mfa) \<and>
     mfa_mfp mfa' = drop 1 (dropWhile (\<lambda>x. \<not> maf_isBlankLine x)
        (if mb_lines b = [] then dropWhile maf_isBlankLine (mfa_mfp mfa) else mfa_mfp mfa))"
proof (induction b mfa rule: body_loop.induct)
  case (1 thisBlock mfa)
  show ?case
  proof (cases "mfa_mfp mfa")
    case Nil
    with "1.prems" have "b' = thisBlock" "mfa' = mfa"
      by (simp_all add: body_loop.simps [of thisBlock mfa] de_getline_def)
    with Nil show ?thesis by simp
  next
    case (Cons line f)
    define mfa1 where "mfa1 = mfa\<lparr>mfa_lineNumber := mfa_lineNumber mfa + 1, mfa_mfp := f\<rparr>"
    have g: "de_getline (mfa_mfp mfa) = Some (line, f)"
      by (simp add: Cons de_getline_def)
    have f1: "mfa_mfp mfa1 = f" by (simp add: mfa1_def)
    show ?thesis
    proof (cases "maf_isBlankLine line")
      case True
      show ?thesis
      proof (cases "mb_lines thisBlock = []")
        case e: True
        from "1.prems" have r: "body_loop thisBlock mfa1 = Inr (b', mfa')"
          by (simp add: body_loop.simps [of thisBlock mfa] g True e mfa1_def)
        from "1.IH"(1) [OF g refl, folded mfa1_def, OF refl True e r] e True show ?thesis
          by (simp add: Cons f1)
      next
        case False
        with "1.prems" True have "b' = thisBlock" "mfa' = mfa1"
          by (simp_all add: body_loop.simps [of thisBlock mfa] g mfa1_def)
        with False True show ?thesis by (simp add: Cons f1)
      qed
    next
      case False
      from "1.prems" False obtain ml where
        p: "maf_newMafLineFromString line (mfa_lineNumber mfa1) = Inr ml"
        and r: "body_loop (block_add thisBlock ml) mfa1 = Inr (b', mfa')"
        by (auto simp add: body_loop.simps [of thisBlock mfa] g mfa1_def split: sum.splits)
      have ne: "mb_lines (block_add thisBlock ml) \<noteq> []" by (simp add: block_add_def)
      from parse_fields [OF p]
      have "raw_lines (block_add thisBlock ml) = raw_lines thisBlock @ [line]"
        by (simp add: raw_lines_def block_add_def)
      with "1.IH"(2) [OF g refl, folded mfa1_def, OF refl False p r] ne False show ?thesis
        by (simp add: Cons f1)
    qed
  qed
qed

lemma readBody_groups:
  assumes r: "maf_readBlockBody mfa = Inr (b, mfa')"
    and nb: "\<forall>a. mfa_lastLine mfa = Some a \<longrightarrow> \<not> maf_isBlankLine a"
  shows "groups (pending mfa)
           = (if mb_lines b = [] then [] else raw_lines b # groups (pending mfa'))"
proof -
  from r obtain b0 m0 where
    l: "body_lastLine maf_newMafBlock mfa = Inr (b0, m0)"
    and lp: "body_loop (b0\<lparr>mb_lineNumber := mfa_lineNumber m0\<rparr>) m0 = Inr (b, mfa')"
    by (auto simp add: maf_readBlockBody_def split: sum.splits)
  from readBody_content(2) [OF r] have p': "pending mfa' = mfa_mfp mfa'"
    by (simp add: pending_def)
  note ro = body_loop_run_of [OF lp]
  show ?thesis
  proof (cases "mfa_lastLine mfa")
    case None
    with l have b0: "mb_lines b0 = []" "raw_lines b0 = []" and m0: "mfa_mfp m0 = mfa_mfp mfa"
      by (auto simp add: body_lastLine_def maf_newMafBlock_def raw_lines_def)
    define g where "g = dropWhile maf_isBlankLine (mfa_mfp mfa)"
    from ro b0 m0 have rb: "raw_lines b = takeWhile (\<lambda>x. \<not> maf_isBlankLine x) g"
      and rm: "mfa_mfp mfa' = drop 1 (dropWhile (\<lambda>x. \<not> maf_isBlankLine x) g)"
      by (simp_all add: raw_lines_def g_def)
    have pg: "groups (pending mfa) = groups g"
      using None by (simp add: pending_def g_def groups_dropWhile_blank)
    show ?thesis
    proof (cases g)
      case Nil
      with rb pg show ?thesis by (simp add: raw_lines_def)
    next
      case (Cons x xs)
      from dropWhile_head [of maf_isBlankLine "mfa_mfp mfa" x xs] Cons
      have x: "\<not> maf_isBlankLine x" by (simp add: g_def)
      with Cons rb have "raw_lines b = x # takeWhile (\<lambda>x. \<not> maf_isBlankLine x) xs" by simp
      moreover from Cons x rm
      have "groups (mfa_mfp mfa') = groups (dropWhile (\<lambda>x. \<not> maf_isBlankLine x) xs)"
        by (simp add: groups_drop1)
      ultimately show ?thesis using pg Cons x p' by (auto simp add: raw_lines_def)
    qed
  next
    case (Some a)
    with nb have a: "\<not> maf_isBlankLine a" by simp
    from l Some obtain ml where p: "maf_newMafLineFromString a (mfa_lineNumber mfa) = Inr ml"
      and b0: "mb_lines b0 = [ml]" and m0: "mfa_mfp m0 = mfa_mfp mfa"
      by (auto simp add: body_lastLine_def split: sum.splits)
    from parse_fields [OF p] b0 have rb0: "raw_lines b0 = [a]" by (simp add: raw_lines_def)
    from ro b0 rb0 m0
    have rb: "raw_lines b = a # takeWhile (\<lambda>x. \<not> maf_isBlankLine x) (mfa_mfp mfa)"
      and rm: "mfa_mfp mfa' = drop 1 (dropWhile (\<lambda>x. \<not> maf_isBlankLine x) (mfa_mfp mfa))"
      by (simp_all add: raw_lines_def)
    from rm have "groups (mfa_mfp mfa')
        = groups (dropWhile (\<lambda>x. \<not> maf_isBlankLine x) (mfa_mfp mfa))"
      by (simp add: groups_drop1)
    with rb a Some p' show ?thesis by (auto simp add: pending_def raw_lines_def)
  qed
qed

lemma readAll_loop_groups:
  "readAll_loop mfa = Inr (bs, mfa') \<Longrightarrow> in_body mfa \<Longrightarrow>
     \<forall>a. mfa_lastLine mfa = Some a \<longrightarrow> \<not> maf_isBlankLine a \<Longrightarrow>
     map raw_lines bs = groups (pending mfa)"
proof (induction mfa arbitrary: bs mfa' rule: readAll_loop.induct)
  case (1 mfa)
  from "1.prems"(2) have nz: "mfa_lineNumber mfa \<noteq> 0" by (simp add: in_body_def)
  from "1.prems"(1) obtain r m1 where rb: "maf_readBlock mfa = Inr (r, m1)"
    by (auto simp add: readAll_loop.simps [of mfa] split: sum.splits)
  with nz obtain b where body: "maf_readBlockBody mfa = Inr (b, m1)"
    and r: "r = (if mb_lines b \<noteq> [] then Some b else None)"
    by (auto simp add: maf_readBlock_def split: sum.splits if_splits)
  note bc = readBody_content [OF body]
  note bg = readBody_groups [OF body "1.prems"(3)]
  show ?case
  proof (cases "mb_lines b = []")
    case True
    with rb r "1.prems"(1) have "bs = []"
      by (simp add: readAll_loop.simps [of mfa])
    with bg True show ?thesis by simp
  next
    case False
    with r have rs: "r = Some b" by simp
    with rb "1.prems"(1) obtain bs' where l: "readAll_loop m1 = Inr (bs', mfa')"
      and bs: "bs = b # bs'"
      by (auto simp add: readAll_loop.simps [of mfa] split: sum.splits)
    from bc(4) "1.prems"(2) have ib: "in_body m1" using in_body_advanced by blast
    from bc(2) have "\<forall>a. mfa_lastLine m1 = Some a \<longrightarrow> \<not> maf_isBlankLine a" by simp
    from "1.IH" [OF rb refl rs l ib this] bg bs False show ?thesis by simp
  qed
qed

lemma groups_run:
  assumes "list_all (\<lambda>x. \<not> maf_isBlankLine x) xs" and "xs \<noteq> []"
    and "list_all maf_isBlankLine bl" and "bl \<noteq> []"
  shows "groups (xs @ bl @ ys) = xs # groups ys"
proof -
  obtain x xs' where xs: "xs = x # xs'" using assms(2) by (cases xs) auto
  obtain b bl' where bl: "bl = b # bl'" using assms(4) by (cases bl) auto
  from assms(3) bl have b: "maf_isBlankLine b" by simp
  from assms(1) xs have x: "\<not> maf_isBlankLine x"
    and a: "\<forall>y\<in>set xs'. \<not> maf_isBlankLine y" by (simp_all add: list_all_iff)
  from a b bl have t: "takeWhile (\<lambda>x. \<not> maf_isBlankLine x) (xs' @ bl @ ys) = xs'"
    by (simp add: takeWhile_append2)
  from a b bl have d: "dropWhile (\<lambda>x. \<not> maf_isBlankLine x) (xs' @ bl @ ys) = bl @ ys"
    by (simp add: dropWhile_append2)
  have "groups (bl @ ys) = groups ys"
    using assms(3) by (induction bl) simp_all
  with x t d show ?thesis by (simp add: xs)
qed

lemma header_loop_run_of:
  "header_loop line header mfa = Inr (l', h', m') \<Longrightarrow>
     raw_lines h' = raw_lines header @ takeWhile header_ok (line # mfa_mfp mfa) \<and>
     l' # mfa_mfp m' = dropWhile header_ok (line # mfa_mfp mfa)"
proof (induction line header mfa rule: header_loop.induct)
  case (1 line header mfa)
  show ?case
  proof (cases "char0 line \<noteq> CHR ''a'' \<and> \<not> maf_isBlankLine line")
    case True
    define h1 where
      "h1 = header\<lparr>mb_lines := mb_lines header @ [header_line line (mfa_lineNumber mfa)]\<rparr>"
    from "1.prems" True obtain l2 h2 mfa2 where
      a: "header_advance h1 mfa = Inr (l2, h2, mfa2)"
      and r: "header_loop l2 h2 mfa2 = Inr (l', h', m')"
      by (auto simp add: header_loop.simps [of line header mfa] h1_def split: sum.splits)
    note ac = header_advance_content [OF a]
    have "raw_lines h2 = raw_lines header @ [line]"
      by (simp add: raw_lines_def ac(2) h1_def header_line_def)
    with "1.IH" [OF True, folded h1_def, OF a refl refl r] True ac(1) show ?thesis
      by (simp add: header_ok_def)
  next
    case False
    with "1.prems" have "l' = line" "h' = header" "m' = mfa"
      by (simp_all add: header_loop.simps [of line header mfa])
    with False show ?thesis by (simp add: header_ok_def)
  qed
qed

lemma header_track_run:
  assumes "header_track line header mfa = Inr (v, l', h', m')" and "mb_lines header = []"
  shows "(strncmp_eq line ''track'' \<and> v \<and> raw_lines h' = [line] \<and>
            mfa_mfp mfa = l' # mfa_mfp m') \<or>
         (\<not> v \<and> l' = line \<and> h' = header \<and> m' = mfa)"
  using assms
  by (auto simp add: header_track_def raw_lines_def header_line_def
      split: if_splits sum.splits dest!: header_advance_all)

lemma header_maf_run:
  assumes "header_maf v line header mfa = Inr (v', l', h', m')"
    and "length (mb_lines header) \<le> 1"
  shows "(strncmp_eq line ''##maf'' \<and> v' \<and> raw_lines h' = raw_lines header @ [line] \<and>
            mfa_mfp mfa = l' # mfa_mfp m') \<or>
         (v' = v \<and> l' = line \<and> h' = header \<and> m' = mfa)"
  using assms
  by (auto simp add: header_maf_def Let_def raw_lines_def header_line_def
      split: if_splits sum.splits list.splits dest!: header_advance_all)

lemma readHeader_blocks:
  assumes r: "maf_readBlockHeader mfa = Inr (h, mfa')" and n: "mfa_lastLine mfa = None"
  shows "\<exists>h0 rest. mfa_mfp mfa = h0 # rest \<and> raw_lines h = h0 # takeWhile header_ok rest \<and>
           groups (pending mfa') = groups (dropWhile header_ok rest) \<and>
           (\<forall>a. mfa_lastLine mfa' = Some a \<longrightarrow> \<not> maf_isBlankLine a)"
proof -
  define m0 where "m0 = mfa\<lparr>mfa_lineNumber := mfa_lineNumber mfa + 1, mfa_mfp := tl (mfa_mfp mfa)\<rparr>"
  from r obtain line f v1 l1 h1 m1 v2 l2 h2 m2 l3 m3 where
    g: "mfa_mfp mfa = line # f"
    and t: "header_track line maf_newMafBlock m0 = Inr (v1, l1, h1, m1)"
    and m: "header_maf v1 l1 h1 m1 = Inr (v2, l2, h2, m2)"
    and v: "v2"
    and l: "header_loop l2 h2 m2 = Inr (l3, h, m3)"
    and e: "mfa' = (if char0 l3 = CHR ''a'' then m3\<lparr>mfa_lastLine := Some l3\<rparr> else m3)"
    by (auto simp add: maf_readBlockHeader_def de_getline_def maf_checkForPrematureMafEnd_def
        Let_def m0_def split: list.splits sum.splits if_splits)
  have f0: "mfa_mfp m0 = f" "mfa_lastLine m0 = None" using g n by (simp_all add: m0_def)
  have e0: "mb_lines maf_newMafBlock = []" "raw_lines maf_newMafBlock = []"
    by (simp_all add: maf_newMafBlock_def raw_lines_def)
  note tr = header_track_run [OF t e0(1)]
  note tc = header_track_content [OF t e0(1)]
  note mr = header_maf_run [OF m tc(2)]
  note mc = header_maf_content [OF m tc(2,3)]
  have pre: "raw_lines h2 @ takeWhile header_ok (l2 # mfa_mfp m2) = line # takeWhile header_ok f
             \<and> dropWhile header_ok (l2 # mfa_mfp m2) = dropWhile header_ok f"
    using tr mr v f0(1) e0(2) by (auto dest: maf_prefix_header_ok)
  note lr = header_loop_run_of [OF l]
  from lr pre have raw: "raw_lines h = line # takeWhile header_ok f"
    and rest: "l3 # mfa_mfp m3 = dropWhile header_ok f" by simp_all
  from header_loop_content [OF l] have nok: "\<not> header_ok l3"
    and ll: "mfa_lastLine m3 = mfa_lastLine m2" by blast+
  from ll mc(4) tc(5) f0(2) have l3n: "mfa_lastLine m3 = None" by simp
  have "groups (pending mfa') = groups (l3 # mfa_mfp m3) \<and>
        (\<forall>a. mfa_lastLine mfa' = Some a \<longrightarrow> \<not> maf_isBlankLine a)"
  proof (cases "char0 l3 = CHR ''a''")
    case True
    with e a_line_not_blank [OF True] show ?thesis by (simp add: pending_def)
  next
    case False
    with nok have "maf_isBlankLine l3" by (simp add: header_ok_def)
    with False e l3n show ?thesis by (simp add: pending_def)
  qed
  with raw rest g show ?thesis by simp
qed

text \<open>
  C1 (as amended). When a file of fewer than \<open>2^32\<close> lines is read without error and the
  blocks are written at once, the blocks read are the blocks of the file: the header, and then
  one block for every maximal run of lines that are not blank, so that a run of blank lines of
  any length is one block boundary. The text written is determined by the file: for each of
  these blocks in order, its lines verbatim and one blank line, and one more blank line after
  the last block. So exactly one blank line stands between consecutive blocks, and the output
  ends with two blank lines. The lines written that are not blank are the lines of the file
  that are not blank, in order, and no block is empty.
\<close>

theorem read_write_roundtrip:
  assumes "maf_readAll (maf_newMfa filename ls) = Inr (bs, mfa')" and "length ls < 2 ^ 32"
  shows "map raw_lines bs = file_blocks ls \<and>
         mfa_out (maf_writeAll w bs)
           = mfa_out w @ unlines (concat (map (\<lambda>b. b @ [[]]) (file_blocks ls)) @ [[]]) \<and>
         concat (map raw_lines bs) = filter (\<lambda>l. \<not> maf_isBlankLine l) ls \<and>
         list_all (\<lambda>b. raw_lines b \<noteq> []) bs"
proof -
  define mfa where "mfa = maf_newMfa filename ls"
  have s: "mfa_lineNumber mfa = 0" "mfa_lastLine mfa = None" "mfa_mfp mfa = ls"
    by (simp_all add: mfa_def maf_newMfa_def)
  from assms(1) obtain r m1 where rb: "maf_readBlock mfa = Inr (r, m1)"
    by (auto simp add: maf_readAll_def mfa_def split: sum.splits)
  with s(1) obtain h where hd: "maf_readBlockHeader mfa = Inr (h, m1)"
    and r: "r = (if mb_lines h \<noteq> [] then Some h else None)"
    by (auto simp add: maf_readBlock_def split: sum.splits if_splits)
  note hc = readHeader_content [OF hd s(2)]
  from r hc(2) have rs: "r = Some h" by simp
  with rb assms(1) obtain bs' where l: "readAll_loop m1 = Inr (bs', mfa')"
    and bs: "bs = h # bs'"
    by (auto simp add: maf_readAll_def mfa_def [symmetric] split: sum.splits)
  from hc(3) obtain k where "advanced mfa m1 (Suc k)" ..
  from in_body_start [OF s(1) _ this] assms(2) s(3) have ib: "in_body m1" by simp
  from readHeader_blocks [OF hd s(2)] s(3) obtain h0 rest where
    hb: "ls = h0 # rest" "raw_lines h = h0 # takeWhile header_ok rest"
    "groups (pending m1) = groups (dropWhile header_ok rest)"
    "\<forall>a. mfa_lastLine m1 = Some a \<longrightarrow> \<not> maf_isBlankLine a" by auto
  from readAll_loop_groups [OF l ib hb(4)] hb(1-3) bs
  have blocks: "map raw_lines bs = file_blocks ls" by (simp add: file_blocks_def)
  have "concat (map (\<lambda>b. raw_lines b @ [[]]) bs)
          = concat (map (\<lambda>b. b @ [[]]) (map raw_lines bs))"
    by (simp add: comp_def)
  with blocks have out: "mfa_out (maf_writeAll w bs)
           = mfa_out w @ unlines (concat (map (\<lambda>b. b @ [[]]) (file_blocks ls)) @ [[]])"
    by (simp add: maf_writeAll_out)
  from readAll_loop_content [OF l ib] hc(1,2) bs s(3)
  have "concat (map raw_lines bs) = filter (\<lambda>l. \<not> maf_isBlankLine l) ls"
    and "list_all (\<lambda>b. raw_lines b \<noteq> []) bs"
    by (simp_all add: raw_lines_def)
  with blocks out show ?thesis by simp
qed

lemma example_file_read:
  "\<exists>bs m. maf_readAll (maf_newMfa ''in.maf'' example_file) = Inr (bs, m)"
  by (simp add: example_file_def read_eval parse_eval)

lemma example_file_blocks:
  "file_blocks example_file =
     [[''##maf version=1''], [''a score=1'', ''s hg18.chr1 10 5 + 100 ACGTA''],
      [''a score=2'', ''s mm9.chr2 0 4 - 50 A-CGT'']]"
  by (simp add: file_blocks_def example_file_def header_ok_def char0_def NUL_def isspace_def)

theorem read_write_roundtrip_witness:
  "\<exists>bs m. maf_readAll (maf_newMfa ''in.maf'' example_file) = Inr (bs, m) \<and>
     map raw_lines bs =
       [[''##maf version=1''], [''a score=1'', ''s hg18.chr1 10 5 + 100 ACGTA''],
        [''a score=2'', ''s mm9.chr2 0 4 - 50 A-CGT'']] \<and>
     mfa_out (maf_writeAll (maf_newMfa ''out.maf'' []) bs) =
       unlines [''##maf version=1'', '''', ''a score=1'', ''s hg18.chr1 10 5 + 100 ACGTA'', '''',
                ''a score=2'', ''s mm9.chr2 0 4 - 50 A-CGT'', '''', '''']"
proof -
  from example_file_read obtain bs m where
    r: "maf_readAll (maf_newMfa ''in.maf'' example_file) = Inr (bs, m)" by auto
  have len: "length example_file < 2 ^ 32" by (simp add: example_file_def)
  from read_write_roundtrip [OF r len, of "maf_newMfa ''out.maf'' []"]
  have "map raw_lines bs =
       [[''##maf version=1''], [''a score=1'', ''s hg18.chr1 10 5 + 100 ACGTA''],
        [''a score=2'', ''s mm9.chr2 0 4 - 50 A-CGT'']] \<and>
     mfa_out (maf_writeAll (maf_newMfa ''out.maf'' []) bs) =
       unlines [''##maf version=1'', '''', ''a score=1'', ''s hg18.chr1 10 5 + 100 ACGTA'', '''',
                ''a score=2'', ''s mm9.chr2 0 4 - 50 A-CGT'', '''', '''']"
    by (simp add: example_file_blocks maf_newMfa_def)
  with r show ?thesis by (intro exI [of _ bs] exI [of _ m]) simp
qed

text \<open>
  The text written for a file with one alignment block ends with two blank lines, not with
  exactly one.
\<close>

theorem one_trailing_blank_counterexample:
  "map_sum id (\<lambda>(bs, m). mfa_out (maf_writeAll (maf_newMfa ''out.maf'' []) bs))
     (maf_readAll (maf_newMfa ''in.maf''
        [''##maf version=1'', '''', ''a score=1'', ''s hg18.chr1 10 5 + 100 ACGTA'', '''']))
   = Inr (unlines [''##maf version=1'', '''', ''a score=1'', ''s hg18.chr1 10 5 + 100 ACGTA'',
                   '''', ''''])"
  by (simp add: read_eval parse_eval maf_writeAll_def maf_writeBlock_def fprintf_def unlines_def
      Let_def)

end
